theory Spec2Isabelle
  imports Main "HOL-Library.Sublist" "HOL-Library.AList"
begin

section \<open>Characters and the string built-ins the module relies on\<close>

text \<open>
  The module \<^verbatim>\<open>wifi/scheme.py\<close> is Python 3 and works on \<^verbatim>\<open>str\<close> values. A string is modelled
  as a \<^typ>\<open>string\<close>, each \<^typ>\<open>char\<close> standing for the code point of the same number
  (U+0000 to U+00FF); code points above U+00FF are not covered. The character classes
  below are the ones CPython uses for \<^verbatim>\<open>str.isspace\<close>, \<^verbatim>\<open>str.strip\<close>, \<^verbatim>\<open>str.splitlines\<close> and for
  \<^verbatim>\<open>\s\<close>, \<^verbatim>\<open>\d\<close>, \<^verbatim>\<open>\w\<close> in a \<^verbatim>\<open>str\<close> pattern, restricted to that range.
\<close>

definition LF :: char where
  "LF = CHR 0x0A"

definition CR :: char where
  "CR = CHR 0x0D"

definition py_isspace :: "char \<Rightarrow> bool" where
  "py_isspace c = (c \<in> set [CHR 0x09, CHR 0x0A, CHR 0x0B, CHR 0x0C, CHR 0x0D,
      CHR 0x1C, CHR 0x1D, CHR 0x1E, CHR 0x1F, CHR 0x20, CHR 0x85, CHR 0xA0])"

definition py_isdecimal :: "char \<Rightarrow> bool" where
  "py_isdecimal c = (let n = (of_char c :: nat) in 48 \<le> n \<and> n \<le> 57)"

definition py_isword :: "char \<Rightarrow> bool" where
  "py_isword c = (let n = (of_char c :: nat) in
     (48 \<le> n \<and> n \<le> 57) \<or> (65 \<le> n \<and> n \<le> 90) \<or> n = 95 \<or> (97 \<le> n \<and> n \<le> 122)
     \<or> n \<in> set [170, 178, 179, 181, 185, 186, 188, 189, 190]
     \<or> (192 \<le> n \<and> n \<le> 214) \<or> (216 \<le> n \<and> n \<le> 246) \<or> (248 \<le> n \<and> n \<le> 255))"

definition py_islinebreak :: "char \<Rightarrow> bool" where
  "py_islinebreak c = (c \<in> set [CHR 0x0A, CHR 0x0B, CHR 0x0C, CHR 0x0D,
      CHR 0x1C, CHR 0x1D, CHR 0x1E, CHR 0x85])"

text \<open>\<^verbatim>\<open>s.startswith(p)\<close> is \<^term>\<open>prefix p s\<close>.\<close>

text \<open>\<^verbatim>\<open>s.strip()\<close>: leading and trailing whitespace removed.\<close>

definition strip :: "string \<Rightarrow> string" where
  "strip s = rev (dropWhile py_isspace (rev (dropWhile py_isspace s)))"

text \<open>
  \<^verbatim>\<open>s.splitlines()\<close>: the lines of \<open>s\<close> without their line breaks; CR LF is one break, and
  no empty last line is produced when the text ends with a break. The first argument is
  the line read so far.
\<close>

fun splitlines_from :: "string \<Rightarrow> string \<Rightarrow> string list" where
  "splitlines_from cur [] = (if cur = [] then [] else [cur])"
| "splitlines_from cur (c # cs) =
     (if c = CR then
        (case cs of
           [] \<Rightarrow> [cur]
         | d # ds \<Rightarrow> if d = LF then cur # splitlines_from [] ds else cur # splitlines_from [] cs)
      else if py_islinebreak c then cur # splitlines_from [] cs
      else splitlines_from (cur @ [c]) cs)"

definition splitlines :: "string \<Rightarrow> string list" where
  "splitlines s = splitlines_from [] s"

text \<open>
  \<^verbatim>\<open>s.split(" ", 1)\<close>: at most one split, at the first space character (U+0020 only).
\<close>

definition split1 :: "string \<Rightarrow> string list" where
  "split1 s =
     (case dropWhile (\<lambda>c. c \<noteq> CHR '' '') s of
        [] \<Rightarrow> [s]
      | _ # r \<Rightarrow> [takeWhile (\<lambda>c. c \<noteq> CHR '' '') s, r])"

text \<open>
  \<^verbatim>\<open>re.sub(r"\s{2,}", " ", s)\<close>: scanning from the left, every maximal run of two or more
  whitespace characters is replaced by one space; a single whitespace character stays
  as it is.
\<close>

function re_sub_ws :: "string \<Rightarrow> string" where
  "re_sub_ws [] = []"
| "re_sub_ws [c] = [c]"
| "re_sub_ws (c # d # cs) =
     (if py_isspace c \<and> py_isspace d then CHR '' '' # re_sub_ws (dropWhile py_isspace cs)
      else c # re_sub_ws (d # cs))"
  by pat_completeness auto
termination
  by (relation "measure length") (auto simp: less_Suc_eq_le intro: le_SucI length_dropWhile_le)

section \<open>Regular expressions with Python's priorities\<close>

text \<open>
  The two patterns of the module use literals, the classes \<^verbatim>\<open>\s\<close>, \<^verbatim>\<open>\S\<close>, \<^verbatim>\<open>\d\<close>, \<^verbatim>\<open>\w\<close>,
  concatenation, the greedy \<^verbatim>\<open>?\<close>, the greedy \<^verbatim>\<open>+\<close> on a class, and groups. \<^term>\<open>ms r (s, g)\<close>
  lists every way \<open>r\<close> can match at the start of \<open>s\<close>, as the pair of the remaining
  text and the groups, in the order in which a backtracking matcher tries them: the
  first element is the match Python reports.
\<close>

datatype cclass = CSpace | CNonSpace | CDigit | CWord

datatype regex =
    Lit string
  | Cls cclass
  | Cat regex regex
  | Opt regex
  | Plus cclass
  | Group nat regex

fun in_class :: "cclass \<Rightarrow> char \<Rightarrow> bool" where
  "in_class CSpace c = py_isspace c"
| "in_class CNonSpace c = (\<not> py_isspace c)"
| "in_class CDigit c = py_isdecimal c"
| "in_class CWord c = py_isword c"

type_synonym groups = "nat \<rightharpoonup> string"

fun ms :: "regex \<Rightarrow> string \<times> groups \<Rightarrow> (string \<times> groups) list" where
  "ms (Lit w) (s, g) = (if prefix w s then [(drop (length w) s, g)] else [])"
| "ms (Cls c) (s, g) =
     (case s of [] \<Rightarrow> [] | x # xs \<Rightarrow> if in_class c x then [(xs, g)] else [])"
| "ms (Cat a b) sg = concat (map (ms b) (ms a sg))"
| "ms (Opt a) sg = ms a sg @ [sg]"
| "ms (Plus c) (s, g) =
     (case s of
        [] \<Rightarrow> []
      | x # xs \<Rightarrow> if in_class c x then ms (Plus c) (xs, g) @ [(xs, g)] else [])"
| "ms (Group n a) (s, g) =
     map (\<lambda>(s', g'). (s', g'(n \<mapsto> take (length s - length s') s))) (ms a (s, g))"

text \<open>\<^verbatim>\<open>pattern.match(s)\<close>: the first match at the start of \<open>s\<close>, as its groups.\<close>

definition re_match :: "regex \<Rightarrow> string \<Rightarrow> groups option" where
  "re_match r s = (case ms r (s, Map.empty) of [] \<Rightarrow> None | (rest, g) # _ \<Rightarrow> Some g)"

text \<open>
  \<^verbatim>\<open>pattern.search(s)\<close> for a pattern \<^verbatim>\<open>^r\<close> compiled with \<^verbatim>\<open>re.MULTILINE\<close>: the start
  positions are tried from left to right, and \<^verbatim>\<open>^\<close> holds at the start of the text and
  right after a line feed. The flag says whether the current position is such a one.
\<close>

fun re_search_bol :: "regex \<Rightarrow> bool \<Rightarrow> string \<Rightarrow> groups option" where
  "re_search_bol r at_bol [] = (if at_bol then re_match r [] else None)"
| "re_search_bol r at_bol (c # cs) =
     (case (if at_bol then re_match r (c # cs) else None) of
        Some g \<Rightarrow> Some g
      | None \<Rightarrow> re_search_bol r (c = LF) cs)"

text \<open>
  \<^verbatim>\<open>scheme_re = re.compile(r"iface\s+(?P<interface>wlan\d?)(?:-(?P<name>\w+))?\s+inet\s+(?P<type>\w+)")\<close>,
  groups 1, 2, 3 being interface, name and type.
\<close>

definition scheme_re :: regex where
  "scheme_re =
     Cat (Lit ''iface'') (Cat (Plus CSpace)
    (Cat (Group 1 (Cat (Lit ''wlan'') (Opt (Cls CDigit))))
    (Cat (Opt (Cat (Lit ''-'') (Group 2 (Plus CWord))))
    (Cat (Plus CSpace) (Cat (Lit ''inet'') (Cat (Plus CSpace) (Group 3 (Plus CWord))))))))"

text \<open>
  \<^verbatim>\<open>bound_ip_re = re.compile(r"^bound to (?P<ip_address>\S+)", flags=re.MULTILINE)\<close>, without
  its anchor, which \<^const>\<open>re_search_bol\<close> takes care of; group 1 is the address.
\<close>

definition bound_ip_re :: regex where
  "bound_ip_re = Cat (Lit ''bound to '') (Group 1 (Plus CNonSpace))"

section \<open>Errors\<close>

text \<open>
  The exceptions the module can raise. \<open>OutsideModel\<close> is not an exception: it marks a
  file name that the flat model of the override directory does not cover.
\<close>

datatype error =
    ValueError
  | KeyError
  | IndexError
  | TypeError
  | NotImplementedError
  | RuntimeError
  | ConnectionError
  | FileNotFoundError
  | OutsideModel

section \<open>Option derivation\<close>

record Cell =
  encrypted :: bool
  ssid :: string
  encryption_type :: string

text \<open>
  \<^verbatim>\<open>configuration(cell, passkey=None)\<close>. The key derivation
  \<^verbatim>\<open>PBKDF2(passkey, cell.ssid, 4096).hexread(32)\<close> comes from another package and is the
  parameter \<open>pbkdf2\<close>. The result is the dictionary in insertion order. A missing
  passkey is \<open>None\<close>, on which \<^verbatim>\<open>len\<close> raises \<^verbatim>\<open>TypeError\<close>.
\<close>

definition configuration ::
  "(string \<Rightarrow> string \<Rightarrow> string) \<Rightarrow> Cell \<Rightarrow> string option \<Rightarrow> error + (string \<times> string) list" where
  "configuration pbkdf2 cell passkey =
     (if \<not> encrypted cell then
        Inr [(''wireless-essid'', ssid cell), (''wireless-channel'', ''auto'')]
      else if prefix ''wpa'' (encryption_type cell) then
        (case passkey of
           None \<Rightarrow> Inl TypeError
         | Some p \<Rightarrow>
             Inr [(''wpa-ssid'', ssid cell),
                  (''wpa-psk'', if length p \<noteq> 64 then pbkdf2 p (ssid cell) else p),
                  (''wireless-channel'', ''auto'')])
      else if encryption_type cell = ''wep'' then
        (case passkey of
           None \<Rightarrow> Inl TypeError
         | Some p \<Rightarrow>
             Inr [(''wireless-essid'', ssid cell),
                  (''wireless-key'', if length p \<in> set [5, 13, 16, 29] then ''s:'' @ p else p)])
      else Inl NotImplementedError)"

section \<open>Schemes\<close>

text \<open>
  A \<^verbatim>\<open>Scheme\<close> object. \<^verbatim>\<open>options\<close> is a dictionary from a key to a list of values (the
  constructor wraps a value that is not a list); it is an association list in insertion
  order, whose keys are distinct in every dictionary.
\<close>

record Scheme =
  interface :: string
  name :: string
  type :: string
  options :: "(string \<times> string list) list"

text \<open>
  The pairs \<^verbatim>\<open>for k in self.options.keys() for v in self.options[k]\<close>.
\<close>

definition option_pairs :: "Scheme \<Rightarrow> (string \<times> string) list" where
  "option_pairs self = concat (map (\<lambda>(k, vs). map (Pair k) vs) (options self))"

text \<open>\<^verbatim>\<open>Scheme.__str__\<close>.\<close>

definition str_Scheme :: "Scheme \<Rightarrow> string" where
  "str_Scheme self =
     (''iface '' @ interface self @ ''-'' @ name self @ '' inet '' @ type self)
     @ concat (map (\<lambda>(k, v). [LF] @ ''    '' @ k @ '' '' @ v) (option_pairs self))
     @ [LF]"

text \<open>\<^verbatim>\<open>Scheme.iface\<close> and \<^verbatim>\<open>Scheme.as_args\<close>.\<close>

definition iface :: "Scheme \<Rightarrow> string" where
  "iface self = interface self @ ''-'' @ name self"

definition as_args :: "Scheme \<Rightarrow> string list" where
  "as_args self =
     [interface self @ ''='' @ iface self]
     @ concat (map (\<lambda>(k, v). [''-o'', k @ ''='' @ v]) (option_pairs self))"

section \<open>Parsing\<close>

text \<open>
  \<^verbatim>\<open>if not key in options: options[key] = []\<close> followed by \<^verbatim>\<open>options[key].append(value)\<close>:
  a new key goes to the end of the dictionary, a known key keeps its place.
\<close>

definition add_option ::
  "(string \<times> string list) list \<Rightarrow> string \<Rightarrow> string \<Rightarrow> (string \<times> string list) list" where
  "add_option opts key val =
     (case map_of opts key of
        None \<Rightarrow> AList.update key [val] opts
      | Some vs \<Rightarrow> AList.update key (vs @ [val]) opts)"

text \<open>
  \<^verbatim>\<open>key, value = re.sub(r"\s{2,}", " ", line.strip()).split(" ", 1)\<close>: the line is
  stripped, its whitespace runs collapsed, split once, and unpacked into key and value,
  which raises \<^verbatim>\<open>ValueError\<close> unless the split gave two parts.
\<close>

definition unpack_option :: "string \<Rightarrow> error + (string \<times> string)" where
  "unpack_option l =
     (case split1 (re_sub_ws (strip l)) of
        [key, val] \<Rightarrow> Inr (key, val)
      | _ \<Rightarrow> Inl ValueError)"

text \<open>
  The inner loop of \<^verbatim>\<open>extract_schemes\<close>: while there is a next line and it starts with a
  space, it is popped and its key and value are added to the dictionary. The result is
  the dictionary and the lines left.
\<close>

fun read_options ::
  "string list \<Rightarrow> (string \<times> string list) list \<Rightarrow>
     error + ((string \<times> string list) list \<times> string list)" where
  "read_options [] opts = Inr (opts, [])"
| "read_options (l # lines) opts =
     (if prefix '' '' l then
        (case unpack_option l of
           Inl e \<Rightarrow> Inl e
         | Inr (key, val) \<Rightarrow> read_options lines (add_option opts key val))
      else Inr (opts, l # lines))"

lemma read_options_length:
  "read_options lines opts = Inr (opts', lines') \<Longrightarrow> length lines' \<le> length lines"
proof (induction lines arbitrary: opts)
  case Nil
  then show ?case by simp
next
  case (Cons l lines)
  show ?case
  proof (cases "prefix '' '' l")
    case True
    with Cons.prems obtain key val where
      "read_options lines (add_option opts key val) = Inr (opts', lines')"
      by (auto split: sum.splits)
    from Cons.IH [OF this] show ?thesis by simp
  next
    case False
    with Cons.prems show ?thesis by simp
  qed
qed

text \<open>
  The outer loop of \<^verbatim>\<open>extract_schemes\<close>, on the lines left and the schemes found so far.
  \<^verbatim>\<open>match.groups()\<close> is unpacked into interface, name and type; a name or an interface
  that is \<open>None\<close> or empty skips the line. Group 3 is not optional in the pattern, so the
  type of a match is never \<open>None\<close> (lemma \<open>scheme_re_groups\<close> below), and the last case
  only serves the two skipping ones.
\<close>

function extract_loop :: "string list \<Rightarrow> Scheme list \<Rightarrow> error + Scheme list" where
  "extract_loop [] schemes = Inr schemes"
| "extract_loop (line # lines) schemes =
     (if prefix ''#'' line \<or> line = [] then extract_loop lines schemes
      else
        (case re_match scheme_re line of
           None \<Rightarrow> extract_loop lines schemes
         | Some g \<Rightarrow>
             (case (g 1, g 2, g 3) of
                (Some interface', Some scheme', Some type') \<Rightarrow>
                  if scheme' = [] \<or> interface' = [] then extract_loop lines schemes
                  else
                    (case read_options lines [] of
                       Inl e \<Rightarrow> Inl e
                     | Inr (opts, lines') \<Rightarrow>
                         extract_loop lines'
                           (schemes @ [\<lparr>interface = interface', name = scheme',
                                        type = type', options = opts\<rparr>]))
              | _ \<Rightarrow> extract_loop lines schemes)))"
  by pat_completeness auto
termination
  by (relation "measure (\<lambda>(lines, schemes). length lines)")
     (auto simp: less_Suc_eq_le dest: read_options_length)

definition extract_schemes :: "string \<Rightarrow> error + Scheme list" where
  "extract_schemes interfaces' = extract_loop (splitlines interfaces') []"

section \<open>Interpreting the output of ifup\<close>

record Connection =
  scheme :: Scheme
  ip_address :: "string option"

text \<open>
  \<^verbatim>\<open>Scheme.parse_ifup_output\<close>. \<^verbatim>\<open>matches.group("ip_address")\<close> is the group or \<open>None\<close>;
  \<^verbatim>\<open>self.options["address"][0]\<close> raises \<^verbatim>\<open>KeyError\<close> without the key and \<^verbatim>\<open>IndexError\<close> on
  an empty list.
\<close>

definition parse_ifup_output :: "Scheme \<Rightarrow> string \<Rightarrow> error + Connection" where
  "parse_ifup_output self output =
     (if type self = ''dhcp'' then
        (case re_search_bol bound_ip_re True output of
           Some g \<Rightarrow> Inr \<lparr>scheme = self, ip_address = g 1\<rparr>
         | None \<Rightarrow> Inl ConnectionError)
      else
        (case map_of (options self) ''address'' of
           None \<Rightarrow> Inl KeyError
         | Some [] \<Rightarrow> Inl IndexError
         | Some (v # _) \<Rightarrow> Inr \<lparr>scheme = self, ip_address = Some v\<rparr>))"

section \<open>The two file locations\<close>

text \<open>
  \<^verbatim>\<open>Scheme.interfaces\<close> is the path of the primary file and \<^verbatim>\<open>Scheme.interfaces_d\<close> the path of
  the override directory. The state of the two locations is the text of the primary file
  (\<open>None\<close> when the file does not exist) and the regular files of the directory, as pairs of
  file name and text. The order of the pairs has no meaning: the order in which \<^verbatim>\<open>listdir\<close>
  returns the names is the choice of the operating system at each call, and is an argument
  of the operations that list the directory. The directory itself exists and holds regular
  files only; text is the decoded text, the encoding is not modelled.
\<close>

record Files =
  interfaces :: "string option"
  interfaces_d :: "(string \<times> string) list"

text \<open>
  \<^verbatim>\<open>open(path, "r")\<close> reads with universal newlines: CR LF and a lone CR arrive as LF.
  \<^verbatim>\<open>open(path, "w")\<close> on Linux writes the text as it is.
\<close>

fun read_text :: "string \<Rightarrow> string" where
  "read_text [] = []"
| "read_text (c # cs) =
     (if c = CR then
        (case cs of
           [] \<Rightarrow> [LF]
         | d # ds \<Rightarrow> if d = LF then LF # read_text ds else LF # read_text cs)
      else c # read_text cs)"

text \<open>\<^verbatim>\<open>for line in f\<close>: the lines of the text, each with its line feed.\<close>

fun file_lines :: "string \<Rightarrow> string list" where
  "file_lines [] = []"
| "file_lines (c # cs) =
     (if c = LF then [c] # file_lines cs
      else (case file_lines cs of [] \<Rightarrow> [[c]] | l # ls \<Rightarrow> (c # l) # ls))"

text \<open>
  \<^verbatim>\<open>join(self.interfaces_d, "%s-%s" % (self.interface, self.name))\<close> names an entry of the
  directory when the file name has no path separator (and no NUL character); other names
  point elsewhere in the file system and are reported as \<open>OutsideModel\<close>.
\<close>

definition flat_name :: "string \<Rightarrow> bool" where
  "flat_name n = (CHR ''/'' \<notin> set n \<and> CHR 0x00 \<notin> set n)"

text \<open>
  Modelled from the spec: \<^verbatim>\<open>ensure_file_exists\<close> of \<^verbatim>\<open>wifi.utils\<close>, which is not among the
  sources. The spec says the store must ensure that the primary file exists before the
  first read, creating it empty, rather than treating its absence as an error.
\<close>

definition ensure_file_exists :: "Files \<Rightarrow> Files" where
  "ensure_file_exists fs =
     (case interfaces fs of None \<Rightarrow> fs\<lparr>interfaces := Some []\<rparr> | Some raw \<Rightarrow> fs)"

text \<open>
  \<^verbatim>\<open>Scheme.all\<close>: the schemes of the primary file, then those of the files of the directory.
  \<open>listing\<close> is what \<^verbatim>\<open>listdir(cls.interfaces_d)\<close> returns at this call, the names in the
  order the operating system chooses; a name that is not a regular file of the directory
  fails the \<^verbatim>\<open>isfile\<close> test and is passed over. \<^verbatim>\<open>print(schemes)\<close> writes to the standard
  output, which is not part of the state.
\<close>

fun extract_files ::
  "(string \<times> string) list \<Rightarrow> string list \<Rightarrow> Scheme list \<Rightarrow> error + Scheme list" where
  "extract_files dir [] schemes = Inr schemes"
| "extract_files dir (iface_file # listing) schemes =
     (case map_of dir iface_file of
        None \<Rightarrow> extract_files dir listing schemes
      | Some raw \<Rightarrow>
          (case extract_schemes (read_text raw) of
             Inl e \<Rightarrow> Inl e
           | Inr extra \<Rightarrow> extract_files dir listing (schemes @ extra)))"

definition all_schemes :: "string list \<Rightarrow> Files \<Rightarrow> (error + Scheme list) \<times> Files" where
  "all_schemes listing fs =
     (let fs1 = ensure_file_exists fs in
      case interfaces fs1 of
        None \<Rightarrow> (Inl FileNotFoundError, fs1)
      | Some raw \<Rightarrow>
          (case extract_schemes (read_text raw) of
             Inl e \<Rightarrow> (Inl e, fs1)
           | Inr schemes \<Rightarrow> (extract_files (interfaces_d fs1) listing schemes, fs1)))"

text \<open>
  \<^verbatim>\<open>Scheme.find\<close> (with \<^verbatim>\<open>Scheme.where\<close>): the first scheme with that interface and name, or
  \<open>None\<close>.
\<close>

definition find_scheme ::
  "string list \<Rightarrow> string \<Rightarrow> string \<Rightarrow> Files \<Rightarrow> (error + Scheme option) \<times> Files" where
  "find_scheme listing interface' name' fs =
     (case all_schemes listing fs of
        (Inl e, fs1) \<Rightarrow> (Inl e, fs1)
      | (Inr schemes, fs1) \<Rightarrow>
          (Inr (case filter (\<lambda>s. interface s = interface' \<and> name s = name') schemes of
                  [] \<Rightarrow> None
                | s # _ \<Rightarrow> Some s), fs1))"

text \<open>
  The loop of \<^verbatim>\<open>Scheme.delete\<close> over the lines of the primary file: a blank line ends the
  skipping, a line whose stripped text starts with the header starts it, and a line is
  kept unless the loop is skipping.
\<close>

fun delete_loop :: "string \<Rightarrow> bool \<Rightarrow> string \<Rightarrow> string list \<Rightarrow> string" where
  "delete_loop iface' skip content [] = content"
| "delete_loop iface' skip content (line # lines) =
     (let skip' = (if strip line = [] then False
                   else if prefix iface' (strip line) then True
                   else skip)
      in delete_loop iface' skip' (if \<not> skip' then content @ line else content) lines)"

text \<open>
  \<^verbatim>\<open>Scheme.delete\<close>: the primary file is rewritten with the lines kept, and the file of the
  scheme in the directory is removed if it exists.
\<close>

definition delete :: "Scheme \<Rightarrow> Files \<Rightarrow> (error + unit) \<times> Files" where
  "delete self fs =
     (let iface' = ''iface '' @ interface self @ ''-'' @ name self @ '' inet '' @ type self in
      case interfaces fs of
        None \<Rightarrow> (Inl FileNotFoundError, fs)
      | Some raw \<Rightarrow>
          (let content = delete_loop iface' False [] (file_lines (read_text raw));
               fs1 = fs\<lparr>interfaces := Some content\<rparr>;
               iface_file = interface self @ ''-'' @ name self
           in if \<not> flat_name iface_file then (Inl OutsideModel, fs1)
              else (Inr (), fs1\<lparr>interfaces_d := AList.delete iface_file (interfaces_d fs1)\<rparr>)))"

text \<open>
  The end of \<^verbatim>\<open>Scheme.save\<close>: the rendered scheme is written to its file in the directory,
  created or truncated. Where a new file stands among the pairs says nothing about the
  order in which the directory is listed later.
\<close>

definition write_scheme :: "Scheme \<Rightarrow> Files \<Rightarrow> (error + unit) \<times> Files" where
  "write_scheme self fs =
     (let iface_file = interface self @ ''-'' @ name self
      in if \<not> flat_name iface_file then (Inl OutsideModel, fs)
         else (Inr (), fs\<lparr>interfaces_d :=
                 AList.update iface_file (str_Scheme self) (interfaces_d fs)\<rparr>))"

text \<open>
  \<^verbatim>\<open>Scheme.save\<close>, \<open>listing\<close> being the listing of the directory that its lookup gets. An
  object of class \<^verbatim>\<open>Scheme\<close> is always true, so \<^verbatim>\<open>if existing_scheme\<close> asks whether a scheme was
  found.
\<close>

definition save :: "string list \<Rightarrow> Scheme \<Rightarrow> bool \<Rightarrow> Files \<Rightarrow> (error + unit) \<times> Files" where
  "save listing self allow_overwrite fs =
     (case find_scheme listing (interface self) (name self) fs of
        (Inl e, fs1) \<Rightarrow> (Inl e, fs1)
      | (Inr None, fs1) \<Rightarrow> write_scheme self fs1
      | (Inr (Some existing_scheme), fs1) \<Rightarrow>
          if \<not> allow_overwrite then (Inl RuntimeError, fs1)
          else
            (case delete existing_scheme fs1 of
               (Inl e, fs2) \<Rightarrow> (Inl e, fs2)
             | (Inr u, fs2) \<Rightarrow> write_scheme self fs2))"

section \<open>Evaluation\<close>

text \<open>The definitions a concrete input is evaluated with.\<close>

lemmas char_defs =
  LF_def CR_def py_isspace_def py_isdecimal_def py_isword_def py_islinebreak_def

lemmas parse_defs =
  extract_schemes_def splitlines_def re_match_def scheme_re_def
  unpack_option_def strip_def split1_def add_option_def

section \<open>Option derivation: WEP keys\<close>

text \<open>
  Claim C2 states that a WEP secret of length 13 is stored unchanged, without the
  \<^verbatim>\<open>s:\<close> prefix. The code does the opposite: 13 is one of the ASCII key lengths, and the
  key is stored with the prefix.
\<close>

theorem wep_13_unchanged_counterexample:
  "configuration (@) \<lparr>encrypted = True, ssid = ''net'', encryption_type = ''wep''\<rparr>
       (Some ''abcdefghijklm'')
     = Inr [(''wireless-essid'', ''net''), (''wireless-key'', ''s:abcdefghijklm'')]
   \<and> length ''abcdefghijklm'' = 13
   \<and> ''s:abcdefghijklm'' \<noteq> ''abcdefghijklm''"
  by (simp add: configuration_def)

text \<open>
  Claim C2, amended: for a WEP-encrypted network and a secret of length 13, the derived
  options map the key \<^verbatim>\<open>wireless-key\<close> to the secret prefixed with \<^verbatim>\<open>s:\<close> (and
  \<^verbatim>\<open>wireless-essid\<close> to the network name).
\<close>

theorem wep_13_prefixed:
  assumes "encrypted cell" and "encryption_type cell = ''wep''" and "length secret = 13"
  shows "\<exists>opts. configuration pbkdf2 cell (Some secret) = Inr opts
           \<and> map_of opts ''wireless-key'' = Some (''s:'' @ secret)
           \<and> map_of opts ''wireless-essid'' = Some (ssid cell)"
  using assms by (simp add: configuration_def)

theorem wep_13_prefixed_witness:
  "\<exists>opts. configuration (@) \<lparr>encrypted = True, ssid = ''net'', encryption_type = ''wep''\<rparr>
       (Some ''abcdefghijklm'') = Inr opts
     \<and> map_of opts ''wireless-key'' = Some ''s:abcdefghijklm''
     \<and> map_of opts ''wireless-essid'' = Some ''net''"
  using wep_13_prefixed [of "\<lparr>encrypted = True, ssid = ''net'', encryption_type = ''wep''\<rparr>"
      "''abcdefghijklm''" "(@)"]
  by simp

section \<open>Parsing: lines that stop the parser\<close>

text \<open>
  Claim C3 states that \<^verbatim>\<open>extract_schemes\<close> returns normally on every text, and that an
  indented option line inside a matched block never causes a failure. An indented line
  that holds a key and no value is unpacked from a one-element list, and the call ends
  with \<^verbatim>\<open>ValueError\<close>.
\<close>

theorem extract_schemes_key_only_line:
  "extract_schemes (''iface wlan0-home inet dhcp'' @ [LF] @ ''    wpa-ssid'' @ [LF])
     = Inl ValueError"
  by (simp add: parse_defs char_defs)

lemma extract_schemes_blank_indented_line:
  "extract_schemes (''iface wlan0-home inet dhcp'' @ [LF] @ ''    '' @ [LF]) = Inl ValueError"
  by (simp add: parse_defs char_defs)

section \<open>Interpreting the output of ifup: static schemes\<close>

text \<open>
  Claim C10: for a scheme whose type is not \<^verbatim>\<open>dhcp\<close>, \<^verbatim>\<open>parse_ifup_output\<close> does not look at
  the output; the address of the connection is the first value of the \<^verbatim>\<open>address\<close> option,
  and without that option, or with an empty list of values, the call ends with the
  lookup error (\<^verbatim>\<open>KeyError\<close>, \<^verbatim>\<open>IndexError\<close>), not with \<^verbatim>\<open>ConnectionError\<close>.
\<close>

theorem parse_ifup_output_static:
  assumes "type self \<noteq> ''dhcp''"
  shows "parse_ifup_output self output = parse_ifup_output self output'
     \<and> parse_ifup_output self output =
         (case map_of (options self) ''address'' of
            None \<Rightarrow> Inl KeyError
          | Some [] \<Rightarrow> Inl IndexError
          | Some (v # vs) \<Rightarrow> Inr \<lparr>scheme = self, ip_address = Some v\<rparr>)"
  using assms by (simp add: parse_ifup_output_def)

theorem parse_ifup_output_static_witness:
  "parse_ifup_output
     \<lparr>interface = ''wlan0'', name = ''home'', type = ''static'',
      options = [(''address'', [''10.0.0.2'', ''10.0.0.3''])]\<rparr> ''bound to 10.9.9.9''
   = Inr \<lparr>scheme = \<lparr>interface = ''wlan0'', name = ''home'', type = ''static'',
             options = [(''address'', [''10.0.0.2'', ''10.0.0.3''])]\<rparr>,
          ip_address = Some ''10.0.0.2''\<rparr>
   \<and> parse_ifup_output
     \<lparr>interface = ''wlan0'', name = ''home'', type = ''static'', options = []\<rparr>
       ''bound to 10.9.9.9'' = Inl KeyError
   \<and> parse_ifup_output
     \<lparr>interface = ''wlan0'', name = ''home'', type = ''static'',
      options = [(''address'', [])]\<rparr> ''bound to 10.9.9.9'' = Inl IndexError"
  using parse_ifup_output_static [of "\<lparr>interface = ''wlan0'', name = ''home'',
      type = ''static'', options = [(''address'', [''10.0.0.2'', ''10.0.0.3''])]\<rparr>"
      "''bound to 10.9.9.9''"]
    parse_ifup_output_static [of "\<lparr>interface = ''wlan0'', name = ''home'',
      type = ''static'', options = []\<rparr>" "''bound to 10.9.9.9''"]
    parse_ifup_output_static [of "\<lparr>interface = ''wlan0'', name = ''home'',
      type = ''static'', options = [(''address'', [])]\<rparr>" "''bound to 10.9.9.9''"]
  by simp

section \<open>Reasoning about the matcher\<close>

text \<open>The match a backtracking matcher reports: the first of the list.\<close>

definition first_match :: "regex \<Rightarrow> string \<times> groups \<Rightarrow> (string \<times> groups) option" where
  "first_match r sg = (case ms r sg of [] \<Rightarrow> None | x # _ \<Rightarrow> Some x)"

text \<open>A run of class \<open>c\<close> cannot go on into \<open>s\<close>.\<close>

definition stops :: "cclass \<Rightarrow> string \<Rightarrow> bool" where
  "stops c s = (case s of [] \<Rightarrow> True | x # _ \<Rightarrow> \<not> in_class c x)"

text \<open>
  The names \<^verbatim>\<open>scheme_re\<close> accepts: an interface \<^verbatim>\<open>wlan\<close> with at most one decimal digit, and
  a non-empty word of \<^verbatim>\<open>\w\<close> characters.
\<close>

definition is_wlan :: "string \<Rightarrow> bool" where
  "is_wlan i = (prefix ''wlan'' i \<and> (case drop 4 i of [] \<Rightarrow> True | [d] \<Rightarrow> py_isdecimal d | _ \<Rightarrow> False))"

definition is_word :: "string \<Rightarrow> bool" where
  "is_word w = (w \<noteq> [] \<and> list_all py_isword w)"

lemma re_match_first: "re_match r s = map_option snd (first_match r (s, Map.empty))"
  by (simp add: re_match_def first_match_def split: list.splits)

lemma first_Lit: "first_match (Lit w) (w @ s, g) = Some (s, g)"
  by (simp add: first_match_def)

lemma ms_Plus_Nil: "ms (Plus c) ([], g) = []"
  by simp

lemma ms_Plus_Cons:
  "ms (Plus c) (x # xs, g) = (if in_class c x then ms (Plus c) (xs, g) @ [(xs, g)] else [])"
  by simp

declare ms.simps(5) [simp del]
declare ms_Plus_Nil [simp] ms_Plus_Cons [simp]

lemma ms_Plus_stops: "stops c s \<Longrightarrow> ms (Plus c) (s, g) = []"
  by (cases s) (simp_all add: stops_def)

lemma first_Plus_run:
  assumes "list_all (in_class c) ws" and "ws \<noteq> []" and "stops c rest"
  shows "first_match (Plus c) (ws @ rest, g) = Some (rest, g)"
  using assms
proof (induction ws)
  case Nil
  then show ?case by simp
next
  case (Cons x ws)
  show ?case
  proof (cases "ws = []")
    case True
    with Cons.prems show ?thesis
      by (simp add: first_match_def ms_Plus_stops)
  next
    case False
    with Cons have "first_match (Plus c) (ws @ rest, g) = Some (rest, g)" by simp
    with Cons.prems show ?thesis
      by (auto simp: first_match_def split: list.splits)
  qed
qed

lemma first_Cat:
  "first_match a sg = Some x \<Longrightarrow> first_match b x = Some y \<Longrightarrow> first_match (Cat a b) sg = Some y"
  by (auto simp: first_match_def split: list.splits)

lemma first_Opt_Some: "first_match a sg = Some x \<Longrightarrow> first_match (Opt a) sg = Some x"
  by (auto simp: first_match_def split: list.splits)

lemma first_Opt_None: "first_match a sg = None \<Longrightarrow> first_match (Opt a) sg = Some sg"
  by (auto simp: first_match_def split: list.splits)

lemma first_Group:
  "first_match a (s, g) = Some (s', g') \<Longrightarrow>
     first_match (Group n a) (s, g) = Some (s', g'(n \<mapsto> take (length s - length s') s))"
  by (auto simp: first_match_def split: list.splits)

lemma first_Cat_None: "first_match a sg = None \<Longrightarrow> first_match (Cat a b) sg = None"
  by (auto simp: first_match_def split: list.splits)

lemma isword_not_space: "py_isword c \<Longrightarrow> \<not> py_isspace c"
  by (auto simp: py_isword_def py_isspace_def)

lemma isdecimal_word: "py_isdecimal c \<Longrightarrow> py_isword c"
  by (auto simp: py_isword_def py_isdecimal_def Let_def)

lemma linebreak_space: "py_islinebreak c \<Longrightarrow> py_isspace c"
  by (auto simp: py_islinebreak_def py_isspace_def)

lemma first_interface:
  assumes "is_wlan i" and "stops CDigit rest"
  shows "first_match (Group 1 (Cat (Lit ''wlan'') (Opt (Cls CDigit)))) (i @ rest, g)
           = Some (rest, g(1 \<mapsto> i))"
proof -
  from assms(1) consider "i = ''wlan''" | d where "i = ''wlan'' @ [d]" "py_isdecimal d"
    by (auto simp: is_wlan_def prefix_def split: list.splits)
  then show ?thesis
  proof cases
    case 1
    have "first_match (Cls CDigit) (rest, g) = None"
      using assms(2) by (auto simp: first_match_def stops_def split: list.splits)
    then have "first_match (Opt (Cls CDigit)) (rest, g) = Some (rest, g)"
      by (rule first_Opt_None)
    with first_Lit [of "''wlan''" rest g]
    have "first_match (Cat (Lit ''wlan'') (Opt (Cls CDigit))) (''wlan'' @ rest, g) = Some (rest, g)"
      by (rule first_Cat)
    from first_Group [OF this, of 1] 1 show ?thesis by simp
  next
    case 2
    have "first_match (Cls CDigit) (d # rest, g) = Some (rest, g)"
      using 2 by (simp add: first_match_def)
    then have "first_match (Opt (Cls CDigit)) (d # rest, g) = Some (rest, g)"
      by (rule first_Opt_Some)
    with first_Lit [of "''wlan''" "d # rest" g]
    have "first_match (Cat (Lit ''wlan'') (Opt (Cls CDigit))) (''wlan'' @ d # rest, g) = Some (rest, g)"
      by (rule first_Cat)
    from first_Group [OF this, of 1] 2 show ?thesis by simp
  qed
qed

lemma first_word_group:
  assumes "is_word w" and "stops CWord rest"
  shows "first_match (Group n (Plus CWord)) (w @ rest, g) = Some (rest, g(n \<mapsto> w))"
proof -
  have "first_match (Plus CWord) (w @ rest, g) = Some (rest, g)"
    using assms by (intro first_Plus_run) (auto simp: is_word_def list_all_iff)
  from first_Group [OF this, of n] show ?thesis by simp
qed

lemma first_inet_type:
  assumes "is_word t" and "stops CWord rest"
  shows "first_match (Cat (Plus CSpace) (Cat (Lit ''inet'') (Cat (Plus CSpace) (Group 3 (Plus CWord)))))
           ('' inet '' @ t @ rest, g) = Some (rest, g(3 \<mapsto> t))"
proof -
  from assms(1) obtain c cs where t: "t = c # cs" "py_isword c"
    by (cases t) (auto simp: is_word_def)
  have a: "first_match (Plus CSpace) ('' '' @ (''inet '' @ t @ rest), g) = Some (''inet '' @ t @ rest, g)"
    by (rule first_Plus_run) (simp_all add: stops_def py_isspace_def)
  have b: "first_match (Lit ''inet'') (''inet'' @ ('' '' @ t @ rest), g) = Some ('' '' @ t @ rest, g)"
    by (rule first_Lit)
  have c: "first_match (Plus CSpace) ('' '' @ (t @ rest), g) = Some (t @ rest, g)"
  proof (rule first_Plus_run)
    show "list_all (in_class CSpace) '' ''" by (simp add: py_isspace_def)
    show "stops CSpace (t @ rest)" using t by (simp add: stops_def isword_not_space)
  qed simp
  note d = first_word_group [OF assms, of 3 g]
  from first_Cat [OF a first_Cat [OF _ first_Cat [OF c d]]] b show ?thesis by simp
qed

lemma scheme_re_named:
  assumes "is_wlan i" and "is_word n" and "is_word t" and "stops CWord rest"
  shows "first_match scheme_re (''iface '' @ i @ ''-'' @ n @ '' inet '' @ t @ rest, g)
           = Some (rest, g(1 \<mapsto> i, 2 \<mapsto> n, 3 \<mapsto> t))"
proof -
  let ?s1 = "i @ ''-'' @ n @ '' inet '' @ t @ rest"
  from assms(1) have w: "hd i = CHR ''w''" "i \<noteq> []"
    by (auto simp: is_wlan_def prefix_def)
  have a: "first_match (Lit ''iface'') (''iface'' @ ('' '' @ ?s1), g) = Some ('' '' @ ?s1, g)"
    by (rule first_Lit)
  have b: "first_match (Plus CSpace) ('' '' @ ?s1, g) = Some (?s1, g)"
    using w by (intro first_Plus_run) (cases i; simp add: stops_def py_isspace_def)+
  have c: "first_match (Group 1 (Cat (Lit ''wlan'') (Opt (Cls CDigit))))
             (i @ (''-'' @ n @ '' inet '' @ t @ rest), g)
           = Some (''-'' @ n @ '' inet '' @ t @ rest, g(1 \<mapsto> i))"
    by (rule first_interface [OF assms(1)]) (simp add: stops_def py_isdecimal_def)
  have d1: "first_match (Lit ''-'') (''-'' @ (n @ '' inet '' @ t @ rest), g(1 \<mapsto> i))
           = Some (n @ '' inet '' @ t @ rest, g(1 \<mapsto> i))"
    by (rule first_Lit)
  have d2: "first_match (Group 2 (Plus CWord)) (n @ ('' inet '' @ t @ rest), g(1 \<mapsto> i))
           = Some ('' inet '' @ t @ rest, g(1 \<mapsto> i, 2 \<mapsto> n))"
    by (rule first_word_group [OF assms(2)]) (simp add: stops_def py_isword_def)
  have d: "first_match (Opt (Cat (Lit ''-'') (Group 2 (Plus CWord))))
             (''-'' @ n @ '' inet '' @ t @ rest, g(1 \<mapsto> i))
           = Some ('' inet '' @ t @ rest, g(1 \<mapsto> i, 2 \<mapsto> n))"
    using first_Opt_Some [OF first_Cat [OF d1 d2]] by simp
  note e = first_inet_type [OF assms(3,4), of "g(1 \<mapsto> i, 2 \<mapsto> n)"]
  have "first_match scheme_re (''iface'' @ ('' '' @ ?s1), g) = Some (rest, g(1 \<mapsto> i, 2 \<mapsto> n, 3 \<mapsto> t))"
    unfolding scheme_re_def
    using c by (intro first_Cat [OF a] first_Cat [OF b] first_Cat [OF _ first_Cat [OF d e]]) simp
  then show ?thesis by simp
qed

lemma scheme_re_unnamed:
  assumes "is_wlan i" and "is_word t" and "stops CWord rest"
  shows "first_match scheme_re (''iface '' @ i @ '' inet '' @ t @ rest, g)
           = Some (rest, g(1 \<mapsto> i, 3 \<mapsto> t))"
proof -
  let ?s1 = "i @ '' inet '' @ t @ rest"
  from assms(1) have w: "hd i = CHR ''w''" "i \<noteq> []"
    by (auto simp: is_wlan_def prefix_def)
  have a: "first_match (Lit ''iface'') (''iface'' @ ('' '' @ ?s1), g) = Some ('' '' @ ?s1, g)"
    by (rule first_Lit)
  have b: "first_match (Plus CSpace) ('' '' @ ?s1, g) = Some (?s1, g)"
    using w by (intro first_Plus_run) (cases i; simp add: stops_def py_isspace_def)+
  have c: "first_match (Group 1 (Cat (Lit ''wlan'') (Opt (Cls CDigit))))
             (i @ ('' inet '' @ t @ rest), g)
           = Some ('' inet '' @ t @ rest, g(1 \<mapsto> i))"
    by (rule first_interface [OF assms(1)]) (simp add: stops_def py_isdecimal_def)
  have "first_match (Cat (Lit ''-'') (Group 2 (Plus CWord))) ('' inet '' @ t @ rest, g(1 \<mapsto> i)) = None"
    by (simp add: first_match_def)
  then have d: "first_match (Opt (Cat (Lit ''-'') (Group 2 (Plus CWord))))
             ('' inet '' @ t @ rest, g(1 \<mapsto> i))
           = Some ('' inet '' @ t @ rest, g(1 \<mapsto> i))"
    by (rule first_Opt_None)
  note e = first_inet_type [OF assms(2,3), of "g(1 \<mapsto> i)"]
  have "first_match scheme_re (''iface'' @ ('' '' @ ?s1), g) = Some (rest, g(1 \<mapsto> i, 3 \<mapsto> t))"
    unfolding scheme_re_def
    using c by (intro first_Cat [OF a] first_Cat [OF b] first_Cat [OF _ first_Cat [OF d e]]) simp
  then show ?thesis by simp
qed

section \<open>Lines\<close>

text \<open>A text without line breaks, and the text made of lines that each end with a line feed.\<close>

definition no_breaks :: "string \<Rightarrow> bool" where
  "no_breaks s = list_all (\<lambda>c. \<not> py_islinebreak c) s"

lemma CR_linebreak: "py_islinebreak CR" "py_islinebreak LF"
  by (simp_all add: py_islinebreak_def CR_def LF_def)

lemma splitlines_from_line:
  "no_breaks l \<Longrightarrow> splitlines_from cur l = (if cur @ l = [] then [] else [cur @ l])"
proof (induction l arbitrary: cur)
  case Nil
  then show ?case by simp
next
  case (Cons c l)
  then have "c \<noteq> CR" "\<not> py_islinebreak c" "no_breaks l"
    using CR_linebreak by (auto simp: no_breaks_def)
  with Cons.IH [of "cur @ [c]"] show ?case by simp
qed

lemma splitlines_from_LF:
  "no_breaks l \<Longrightarrow> splitlines_from cur (l @ LF # rest) = (cur @ l) # splitlines_from [] rest"
proof (induction l arbitrary: cur)
  case Nil
  show ?case using CR_linebreak by (auto simp: CR_def LF_def)
next
  case (Cons c l)
  then have "c \<noteq> CR" "\<not> py_islinebreak c" "no_breaks l"
    using CR_linebreak by (auto simp: no_breaks_def)
  with Cons.IH [of "cur @ [c]"] show ?case by simp
qed

definition unlines :: "string list \<Rightarrow> string" where
  "unlines ls = concat (map (\<lambda>l. l @ [LF]) ls)"

lemma splitlines_unlines:
  "list_all no_breaks ls \<Longrightarrow> splitlines (unlines ls) = ls"
proof (induction ls)
  case Nil
  then show ?case by (simp add: splitlines_def unlines_def)
next
  case (Cons l ls)
  then show ?case
    using splitlines_from_LF [of l "[]" "unlines ls"]
    by (simp add: splitlines_def unlines_def)
qed

lemma no_breaks_append [simp]: "no_breaks (a @ b) = (no_breaks a \<and> no_breaks b)"
  by (simp add: no_breaks_def)

lemma is_word_no_breaks: "is_word w \<Longrightarrow> no_breaks w"
  by (auto simp: is_word_def no_breaks_def list_all_iff dest: isword_not_space linebreak_space)

lemma is_wlan_cases:
  "is_wlan i \<Longrightarrow> i = ''wlan'' \<or> (\<exists>d. i = ''wlan'' @ [d] \<and> py_isdecimal d)"
  by (auto simp: is_wlan_def prefix_def split: list.splits)

lemma is_wlan_word: "is_wlan i \<Longrightarrow> is_word i"
  by (auto dest!: is_wlan_cases simp: is_word_def isdecimal_word) (simp_all add: py_isword_def)

lemma is_wlan_no_breaks: "is_wlan i \<Longrightarrow> no_breaks i"
  by (simp add: is_wlan_word is_word_no_breaks)

lemma no_breaks_Nil [simp]: "no_breaks []"
  by (simp add: no_breaks_def)

lemma no_breaks_Cons [simp]: "no_breaks (c # s) = (\<not> py_islinebreak c \<and> no_breaks s)"
  by (simp add: no_breaks_def)

section \<open>Parsing: a header without a name\<close>

text \<open>
  Claim C7: a text whose only content is a header line with an interface and a type but no
  \<^verbatim>\<open>-<name>\<close> suffix gives no block: the pattern matches with the name group unset, the
  candidate is skipped, and the result is the empty list. The witness is the line
  \<^verbatim>\<open>iface wlan0 inet dhcp\<close>.
\<close>

theorem unnamed_header_skipped:
  assumes "is_wlan i" and "is_word t"
  shows "extract_schemes (''iface '' @ i @ '' inet '' @ t) = Inr []
       \<and> extract_schemes (''iface '' @ i @ '' inet '' @ t @ [LF]) = Inr []"
proof -
  let ?h = "''iface '' @ i @ '' inet '' @ t"
  have nb: "no_breaks ?h"
    using assms by (simp add: is_wlan_no_breaks is_word_no_breaks py_islinebreak_def)
  have l1: "splitlines ?h = [?h]"
    using splitlines_from_line [OF nb, of "[]"] by (simp add: splitlines_def)
  have l2: "splitlines (?h @ [LF]) = [?h]"
    using splitlines_from_LF [OF nb, of "[]" "[]"] by (simp add: splitlines_def)
  have m: "re_match scheme_re ?h = Some [1 \<mapsto> i, 3 \<mapsto> t]"
    using scheme_re_unnamed [OF assms, of "[]" Map.empty]
    by (simp add: re_match_first stops_def)
  have "extract_loop [?h] [] = Inr []"
    using m by simp
  with l1 l2 show ?thesis by (simp add: extract_schemes_def)
qed

theorem unnamed_header_skipped_witness:
  "extract_schemes ''iface wlan0 inet dhcp'' = Inr []"
  using unnamed_header_skipped [of "''wlan0''" "''dhcp''"]
  by (simp add: is_wlan_def is_word_def char_defs)

section \<open>The arguments of ifup\<close>

lemma pairs_args_length:
  "length (concat (map (\<lambda>(k, v). [a, f k v]) ps)) = 2 * length ps"
  by (induction ps) auto

lemma pairs_args_nth:
  "j < length ps \<Longrightarrow>
     concat (map (\<lambda>(k, v). [a, f k v]) ps) ! (2 * j) = a
   \<and> concat (map (\<lambda>(k, v). [a, f k v]) ps) ! (2 * j + 1) = f (fst (ps ! j)) (snd (ps ! j))"
proof (induction ps arbitrary: j)
  case Nil
  then show ?case by simp
next
  case (Cons p ps)
  show ?case
  proof (cases j)
    case 0
    then show ?thesis by (cases p) simp
  next
    case (Suc i)
    with Cons.prems have "i < length ps" by simp
    from Cons.IH [OF this] Suc show ?thesis by (cases p) simp
  qed
qed

text \<open>
  Claim C9: the argument list of a scheme is \<^verbatim>\<open><interface>=<interface>-<name>\<close> first, and
  then, for the \<open>j\<close>-th (key, value) pair of the options, keys in insertion order and the
  values of a key in their order, the two elements \<^verbatim>\<open>-o\<close> and \<^verbatim>\<open>key=value\<close>.
\<close>

theorem as_args_layout:
  "as_args self ! 0 = interface self @ ''='' @ interface self @ ''-'' @ name self
   \<and> length (as_args self) = 1 + 2 * length (option_pairs self)
   \<and> (\<forall>j < length (option_pairs self).
         as_args self ! (1 + 2 * j) = ''-o''
       \<and> as_args self ! (2 + 2 * j)
           = fst (option_pairs self ! j) @ ''='' @ snd (option_pairs self ! j))
   \<and> option_pairs self = concat (map (\<lambda>(k, vs). map (\<lambda>v. (k, v)) vs) (options self))"
proof -
  let ?ps = "option_pairs self"
  let ?tl = "concat (map (\<lambda>(k, v). [''-o'', k @ ''='' @ v]) ?ps)"
  have a: "as_args self = (interface self @ ''='' @ interface self @ ''-'' @ name self) # ?tl"
    by (simp add: as_args_def iface_def)
  have l: "length ?tl = 2 * length ?ps"
    by (rule pairs_args_length)
  have n: "?tl ! (2 * j) = ''-o'' \<and> ?tl ! (2 * j + 1) = fst (?ps ! j) @ ''='' @ snd (?ps ! j)"
    if "j < length ?ps" for j
    using pairs_args_nth [OF that, of "''-o''" "\<lambda>k v. k @ ''='' @ v"] by simp
  show ?thesis
    using l n by (simp add: a option_pairs_def)
qed

theorem as_args_layout_witness:
  "as_args \<lparr>interface = ''wlan0'', name = ''home'', type = ''dhcp'',
      options = [(''post-up'', [''a'', ''b'']), (''wpa-ssid'', [''net''])]\<rparr>
   = [''wlan0=wlan0-home'', ''-o'', ''post-up=a'', ''-o'', ''post-up=b'', ''-o'', ''wpa-ssid=net'']"
  using as_args_layout [of "\<lparr>interface = ''wlan0'', name = ''home'', type = ''dhcp'',
      options = [(''post-up'', [''a'', ''b'']), (''wpa-ssid'', [''net''])]\<rparr>"]
  by (simp add: as_args_def iface_def option_pairs_def)

section \<open>Interpreting the output of ifup: dhcp schemes\<close>

text \<open>
  The lines of a text, cut at line feeds only (the line structure \<^verbatim>\<open>re.MULTILINE\<close> sees); a
  line that starts with \<^verbatim>\<open>bound to\<close> and a character that is not whitespace; and the token
  after that prefix, up to the next whitespace.
\<close>

fun lf_lines :: "string \<Rightarrow> string list" where
  "lf_lines [] = [[]]"
| "lf_lines (c # cs) =
     (if c = LF then [] # lf_lines cs
      else (case lf_lines cs of [] \<Rightarrow> [[c]] | l # ls \<Rightarrow> (c # l) # ls))"

definition bound_line :: "string \<Rightarrow> bool" where
  "bound_line l =
     (prefix ''bound to '' l \<and> (case drop 9 l of [] \<Rightarrow> False | c # _ \<Rightarrow> \<not> py_isspace c))"

definition bound_token :: "string \<Rightarrow> string" where
  "bound_token l = takeWhile (\<lambda>c. \<not> py_isspace c) (drop 9 l)"

lemma stops_dropWhile: "stops c s \<Longrightarrow> dropWhile (in_class c) s = s"
  by (cases s) (simp_all add: stops_def)

lemma first_Plus_eq:
  "first_match (Plus c) (s, g) = (if stops c s then None else Some (dropWhile (in_class c) s, g))"
proof (induction s)
  case Nil
  then show ?case by (simp add: first_match_def stops_def)
next
  case (Cons x xs)
  show ?case
  proof (cases "in_class c x")
    case False
    then show ?thesis by (simp add: first_match_def stops_def)
  next
    case True
    have "first_match (Plus c) (x # xs, g)
            = (case first_match (Plus c) (xs, g) of Some y \<Rightarrow> Some y | None \<Rightarrow> Some (xs, g))"
      using True by (simp add: first_match_def split: list.splits)
    with Cons.IH True show ?thesis
      by (simp add: stops_dropWhile) (simp add: stops_def)
  qed
qed

lemma first_Cat_Lit:
  "first_match (Cat (Lit w) b) (s, g)
     = (if prefix w s then first_match b (drop (length w) s, g) else None)"
  by (simp add: first_match_def)

lemma first_Group_eq:
  "first_match (Group n a) (s, g)
     = map_option (\<lambda>(s', g'). (s', g'(n \<mapsto> take (length s - length s') s))) (first_match a (s, g))"
  by (simp add: first_match_def split: list.splits)

lemma take_length_dropWhile: "take (length s - length (dropWhile P s)) s = takeWhile P s"
  by (induction s) (auto simp: Suc_diff_le length_dropWhile_le)

lemma first_Group_Plus:
  "first_match (Group n (Plus c)) (s, g)
     = (if stops c s then None
        else Some (dropWhile (in_class c) s, g(n \<mapsto> takeWhile (in_class c) s)))"
  by (simp add: first_Group_eq first_Plus_eq take_length_dropWhile)

lemma length_bound_to: "length ''bound to '' = 9"
  by simp

lemma re_match_bound_ip:
  "re_match bound_ip_re s =
     (if prefix ''bound to '' s \<and> \<not> stops CNonSpace (drop 9 s)
      then Some [1 \<mapsto> takeWhile (\<lambda>c. \<not> py_isspace c) (drop 9 s)] else None)"
proof -
  have c: "in_class CNonSpace = (\<lambda>c. \<not> py_isspace c)"
    by (simp add: fun_eq_iff)
  have "first_match bound_ip_re (s, g) =
     (if prefix ''bound to '' s \<and> \<not> stops CNonSpace (drop 9 s)
      then Some (dropWhile (in_class CNonSpace) (drop 9 s),
                 g(1 \<mapsto> takeWhile (in_class CNonSpace) (drop 9 s))) else None)" for g
    unfolding bound_ip_re_def first_Cat_Lit first_Group_Plus length_bound_to
    by simp
  then show ?thesis
    by (simp add: re_match_first c)
qed

lemma lf_lines_not_Nil [simp]: "lf_lines s \<noteq> []"
  by (induction s) (auto split: list.splits)

lemma hd_lf_lines: "hd (lf_lines s) = takeWhile (\<lambda>c. c \<noteq> LF) s"
  by (induction s) (auto split: list.splits)

lemma takeWhile_takeWhile_imp:
  "(\<And>x. P x \<Longrightarrow> Q x) \<Longrightarrow> takeWhile P (takeWhile Q s) = takeWhile P s"
  by (induction s) auto

lemma LF_space: "py_isspace LF"
  by (simp add: py_isspace_def LF_def)

lemma drop_takeWhile_prefix:
  "prefix w s \<Longrightarrow> list_all P w \<Longrightarrow> drop (length w) (takeWhile P s) = takeWhile P (drop (length w) s)"
  by (auto simp: prefix_def takeWhile_append2 list_all_iff)

lemma prefix_takeWhile_iff:
  "list_all P w \<Longrightarrow> prefix w (takeWhile P s) = prefix w s"
proof (induction w arbitrary: s)
  case Nil
  then show ?case by simp
next
  case (Cons x w)
  then show ?case by (cases s) auto
qed

lemma bound_line_first:
  "bound_line (takeWhile (\<lambda>c. c \<noteq> LF) s)
     = (prefix ''bound to '' s \<and> \<not> stops CNonSpace (drop 9 s))"
proof -
  let ?P = "\<lambda>c. c \<noteq> LF"
  have w: "list_all ?P ''bound to ''" by (simp add: LF_def)
  show ?thesis
  proof (cases "prefix ''bound to '' s")
    case True
    from drop_takeWhile_prefix [OF True w]
    have d: "drop 9 (takeWhile ?P s) = takeWhile ?P (drop 9 s)"
      unfolding length_bound_to .
    show ?thesis
      using True LF_space
      by (cases "drop 9 s") (auto simp: bound_line_def prefix_takeWhile_iff [OF w] d stops_def)
  next
    case False
    then show ?thesis by (simp add: bound_line_def prefix_takeWhile_iff [OF w])
  qed
qed

lemma bound_token_first:
  assumes "prefix ''bound to '' s"
  shows "bound_token (takeWhile (\<lambda>c. c \<noteq> LF) s) = takeWhile (\<lambda>c. \<not> py_isspace c) (drop 9 s)"
proof -
  let ?P = "\<lambda>c. c \<noteq> LF"
  have w: "list_all ?P ''bound to ''" by (simp add: LF_def)
  from drop_takeWhile_prefix [OF assms w]
  have d: "drop 9 (takeWhile ?P s) = takeWhile ?P (drop 9 s)"
    unfolding length_bound_to .
  show ?thesis
    unfolding bound_token_def d
    by (rule takeWhile_takeWhile_imp) (use LF_space in auto)
qed

text \<open>The groups of the first line that is a \<^const>\<open>bound_line\<close>.\<close>

definition found :: "string list \<Rightarrow> groups option" where
  "found ls = map_option (\<lambda>l. [1 \<mapsto> bound_token l]) (find bound_line ls)"

lemma re_match_bound_ip_line:
  "re_match bound_ip_re s = found [hd (lf_lines s)]"
  by (simp add: re_match_bound_ip found_def hd_lf_lines bound_line_first bound_token_first)

lemma found_Cons: "found (l # ls) = (case found [l] of Some g \<Rightarrow> Some g | None \<Rightarrow> found ls)"
  by (simp add: found_def)

lemma tl_lf_lines:
  "tl (lf_lines (c # cs)) = (if c = LF then lf_lines cs else tl (lf_lines cs))"
  by (auto split: list.splits)

lemma re_search_bound_ip:
  "re_search_bol bound_ip_re True s = found (lf_lines s)
   \<and> re_search_bol bound_ip_re False s = found (tl (lf_lines s))"
proof (induction s)
  case Nil
  show ?case by (simp add: re_match_bound_ip found_def bound_line_def)
next
  case (Cons c cs)
  have f: "re_search_bol bound_ip_re (c = LF) cs = found (tl (lf_lines (c # cs)))"
    using Cons.IH by (simp only: tl_lf_lines split: if_splits) auto
  have l: "lf_lines (c # cs) = hd (lf_lines (c # cs)) # tl (lf_lines (c # cs))"
    using lf_lines_not_Nil [of "c # cs"] by (simp del: lf_lines.simps)
  have "re_search_bol bound_ip_re True (c # cs) = found (lf_lines (c # cs))"
    apply (subst l)
    apply (subst found_Cons)
    apply (simp only: re_search_bol.simps if_True re_match_bound_ip_line f)
    done
  moreover have "re_search_bol bound_ip_re False (c # cs) = found (tl (lf_lines (c # cs)))"
    using f by simp
  ultimately show ?case by simp
qed

text \<open>
  Claim C6 states that a line beginning with the prefix \<^verbatim>\<open>bound to\<close> and a space gives the
  address. The pattern asks for at least one character that is not whitespace after the
  prefix: the output below has a line that begins with the prefix, and the call ends with
  \<^verbatim>\<open>ConnectionError\<close>.
\<close>

theorem bound_to_without_token_counterexample:
  "lf_lines (''bound to '' @ [LF]) = [''bound to '', []]
   \<and> prefix ''bound to '' (hd (lf_lines (''bound to '' @ [LF])))
   \<and> parse_ifup_output
        \<lparr>interface = ''wlan0'', name = ''home'', type = ''dhcp'', options = []\<rparr>
        (''bound to '' @ [LF]) = Inl ConnectionError"
  by (simp add: parse_ifup_output_def re_match_def bound_ip_re_def char_defs)

text \<open>
  Claim C6, amended: for a scheme of type \<^verbatim>\<open>dhcp\<close>, if the output has a line that begins with
  \<^verbatim>\<open>bound to\<close>, a space and a character that is not whitespace, the token after the prefix on
  the first such line is the address of the connection; if there is no such line the call
  ends with \<^verbatim>\<open>ConnectionError\<close>.
\<close>

theorem parse_ifup_output_dhcp:
  assumes "type self = ''dhcp''"
  shows "parse_ifup_output self output =
           (case find bound_line (lf_lines output) of
              Some l \<Rightarrow> Inr \<lparr>scheme = self, ip_address = Some (bound_token l)\<rparr>
            | None \<Rightarrow> Inl ConnectionError)"
  using assms re_search_bound_ip [of "output"]
  by (simp add: parse_ifup_output_def found_def split: option.splits)

theorem parse_ifup_output_dhcp_witness:
  "parse_ifup_output
     \<lparr>interface = ''wlan0'', name = ''home'', type = ''dhcp'', options = []\<rparr>
     (''Listening on LPF/wlan0'' @ [LF]
        @ ''bound to 192.168.1.42 -- renewal in 43200 seconds'' @ [LF])
   = Inr \<lparr>scheme = \<lparr>interface = ''wlan0'', name = ''home'', type = ''dhcp'', options = []\<rparr>,
          ip_address = Some ''192.168.1.42''\<rparr>
   \<and> parse_ifup_output
     \<lparr>interface = ''wlan0'', name = ''home'', type = ''dhcp'', options = []\<rparr>
     (''Listening on LPF/wlan0'' @ [LF]) = Inl ConnectionError"
  using parse_ifup_output_dhcp [of
      "\<lparr>interface = ''wlan0'', name = ''home'', type = ''dhcp'', options = []\<rparr>"
      "''Listening on LPF/wlan0'' @ [LF]
        @ ''bound to 192.168.1.42 -- renewal in 43200 seconds'' @ [LF]"]
    parse_ifup_output_dhcp [of
      "\<lparr>interface = ''wlan0'', name = ''home'', type = ''dhcp'', options = []\<rparr>"
      "''Listening on LPF/wlan0'' @ [LF]"]
  by (simp add: bound_line_def bound_token_def char_defs)

section \<open>Well-formed blocks and option lines\<close>

text \<open>
  A text without two whitespace characters in a row; the keys and values that an option
  line gives back unchanged; the values of a key among (key, value) pairs; and the blocks
  whose rendering parses back.
\<close>

fun single_spaced :: "string \<Rightarrow> bool" where
  "single_spaced [] = True"
| "single_spaced [c] = True"
| "single_spaced (c # d # cs) = (\<not> (py_isspace c \<and> py_isspace d) \<and> single_spaced (d # cs))"

definition good_key :: "string \<Rightarrow> bool" where
  "good_key k = (k \<noteq> [] \<and> list_all (\<lambda>c. \<not> py_isspace c) k)"

definition good_value :: "string \<Rightarrow> bool" where
  "good_value v =
     (v \<noteq> [] \<and> \<not> py_isspace (hd v) \<and> \<not> py_isspace (last v) \<and> single_spaced v \<and> no_breaks v)"

definition values_of :: "string \<Rightarrow> (string \<times> string) list \<Rightarrow> string list" where
  "values_of key ps = map snd (filter (\<lambda>p. fst p = key) ps)"

definition wellformed_block :: "Scheme \<Rightarrow> bool" where
  "wellformed_block b =
     (is_wlan (interface b) \<and> is_word (name b) \<and> is_word (type b)
      \<and> distinct (map fst (options b))
      \<and> list_all (\<lambda>(k, vs). good_key k \<and> vs \<noteq> [] \<and> list_all good_value vs) (options b))"

lemma re_sub_ws_id: "single_spaced s \<Longrightarrow> re_sub_ws s = s"
  by (induction s rule: single_spaced.induct) auto

lemma single_spaced_append:
  "single_spaced a \<Longrightarrow> single_spaced b \<Longrightarrow> a = [] \<or> b = [] \<or> \<not> (py_isspace (last a) \<and> py_isspace (hd b))
     \<Longrightarrow> single_spaced (a @ b)"
proof (induction a rule: single_spaced.induct)
  case 1
  then show ?case by simp
next
  case (2 c)
  then show ?case by (cases b) auto
next
  case (3 c d cs)
  then show ?case by auto
qed

lemma no_space_single_spaced: "list_all (\<lambda>c. \<not> py_isspace c) s \<Longrightarrow> single_spaced s"
  by (induction s rule: single_spaced.induct) auto

lemma strip_clean:
  assumes "s \<noteq> []" and "\<not> py_isspace (hd s)" and "\<not> py_isspace (last s)"
    and "list_all py_isspace ws"
  shows "strip (ws @ s) = s"
proof -
  have a: "dropWhile py_isspace (ws @ s) = s"
    using assms by (cases s) (auto simp: dropWhile_append list_all_iff)
  have b: "dropWhile py_isspace (rev s) = rev s"
    using assms by (cases "rev s") (auto simp: last_rev [symmetric] simp del: last_rev)
  show ?thesis by (simp add: strip_def a b)
qed

lemma split1_key_value: "CHR '' '' \<notin> set k \<Longrightarrow> split1 (k @ CHR '' '' # v) = [k, v]"
  by (simp add: split1_def dropWhile_append3 takeWhile_append2 dropWhile_append
      takeWhile_eq_all_conv [THEN iffD2] dropWhile_eq_Nil_conv [THEN iffD2])

lemma space_is_space: "py_isspace (CHR '' '')"
  by (simp add: py_isspace_def)

lemma unpack_rendered_option:
  assumes "good_key k" and "good_value v"
  shows "unpack_option (''    '' @ k @ '' '' @ v) = Inr (k, v)"
proof -
  let ?s = "k @ '' '' @ v"
  from assms have k: "k \<noteq> []" "list_all (\<lambda>c. \<not> py_isspace c) k"
    and v: "v \<noteq> []" "\<not> py_isspace (hd v)" "\<not> py_isspace (last v)" "single_spaced v"
    by (simp_all add: good_key_def good_value_def)
  have hd: "\<not> py_isspace (hd ?s)"
    using k by (cases k) auto
  have st: "strip (''    '' @ ?s) = ?s"
    using hd v k by (intro strip_clean) (simp_all add: space_is_space)
  have sv: "single_spaced ('' '' @ v)"
    using v by (cases v) simp_all
  have "\<not> py_isspace (last k)"
    using k by (auto simp: list_all_iff)
  then have ss: "single_spaced ?s"
    using single_spaced_append [OF no_space_single_spaced [OF k(2)] sv] by simp
  have nk: "CHR '' '' \<notin> set k"
    using k space_is_space by (auto simp: list_all_iff)
  show ?thesis
    unfolding unpack_option_def st re_sub_ws_id [OF ss]
    using split1_key_value [OF nk, of v] by simp
qed

lemma map_of_add_option:
  "map_of (add_option acc k v) k' =
     (if k' = k then Some ((case map_of acc k of None \<Rightarrow> [] | Some us \<Rightarrow> us) @ [v])
      else map_of acc k')"
  by (simp add: add_option_def update_conv' split: option.splits)

text \<open>The dictionary after adding (key, value) pairs one by one.\<close>

definition add_all :: "(string \<times> string list) list \<Rightarrow> (string \<times> string) list \<Rightarrow> (string \<times> string list) list" where
  "add_all acc ps = foldl (\<lambda>a (k, v). add_option a k v) acc ps"

lemma add_all_Nil [simp]: "add_all acc [] = acc"
  by (simp add: add_all_def)

lemma add_all_Cons [simp]: "add_all acc ((k, v) # ps) = add_all (add_option acc k v) ps"
  by (simp add: add_all_def)

lemma add_all_append [simp]: "add_all acc (ps @ qs) = add_all (add_all acc ps) qs"
  by (simp add: add_all_def)

lemma map_of_add_all:
  "map_of (add_all acc ps) key =
     (if values_of key ps = [] then map_of acc key
      else Some ((case map_of acc key of None \<Rightarrow> [] | Some us \<Rightarrow> us) @ values_of key ps))"
proof (induction ps arbitrary: acc)
  case Nil
  then show ?case by (simp add: values_of_def)
next
  case (Cons p ps)
  obtain k v where p: "p = (k, v)" by (cases p)
  show ?case
    unfolding p add_all_Cons Cons.IH map_of_add_option
    by (simp add: values_of_def)
qed

lemma read_options_lines:
  assumes "list_all2 (\<lambda>l p. prefix '' '' l \<and> unpack_option l = Inr p) ls ps"
    and "rest = [] \<or> \<not> prefix '' '' (hd rest)"
  shows "read_options (ls @ rest) acc = Inr (add_all acc ps, rest)"
  using assms
proof (induction ls ps arbitrary: acc rule: list_all2_induct)
  case Nil
  then show ?case by (cases rest) auto
next
  case (Cons l ls p ps)
  obtain k v where p: "p = (k, v)" by (cases p)
  with Cons show ?case by simp
qed

lemma distinct_add_option:
  "distinct (map fst acc) \<Longrightarrow> distinct (map fst (add_option acc k v))"
  by (simp add: add_option_def distinct_update split: option.splits)

lemma distinct_add_all:
  "distinct (map fst acc) \<Longrightarrow> distinct (map fst (add_all acc ps))"
  by (induction ps arbitrary: acc) (auto simp: distinct_add_option)

lemma update_new_key: "k \<notin> fst ` set acc \<Longrightarrow> AList.update k v acc = acc @ [(k, v)]"
  by (induction acc) auto

lemma update_last_key:
  "k \<notin> fst ` set acc \<Longrightarrow> AList.update k v (acc @ [(k, u)]) = acc @ [(k, v)]"
  by (induction acc) auto

lemma add_option_new:
  "k \<notin> fst ` set acc \<Longrightarrow> add_option acc k v = acc @ [(k, [v])]"
  by (simp add: add_option_def update_new_key map_of_eq_None_iff [THEN iffD2])

lemma add_option_last:
  "k \<notin> fst ` set acc \<Longrightarrow> add_option (acc @ [(k, us)]) k v = acc @ [(k, us @ [v])]"
  by (simp add: add_option_def update_last_key map_of_eq_None_iff [THEN iffD2] map_add_def)

lemma add_all_last:
  "k \<notin> fst ` set acc \<Longrightarrow> add_all (acc @ [(k, us)]) (map (Pair k) vs) = acc @ [(k, us @ vs)]"
  by (induction vs arbitrary: us) (simp_all add: add_option_last)

lemma add_all_key:
  assumes "k \<notin> fst ` set acc" and "vs \<noteq> []"
  shows "add_all acc (map (Pair k) vs) = acc @ [(k, vs)]"
proof -
  from assms(2) obtain v ws where vs: "vs = v # ws" by (cases vs) auto
  show ?thesis
    using add_all_last [OF assms(1), of "[v]" ws] assms(1)
    by (simp add: vs add_option_new)
qed

lemma add_all_pairs:
  assumes "distinct (map fst (acc @ opts))" and "list_all (\<lambda>(k, vs). vs \<noteq> []) opts"
  shows "add_all acc (concat (map (\<lambda>(k, vs). map (Pair k) vs) opts)) = acc @ opts"
  using assms
proof (induction opts arbitrary: acc)
  case Nil
  then show ?case by simp
next
  case (Cons p opts)
  obtain k vs where p: "p = (k, vs)" by (cases p)
  from Cons.prems p have k: "k \<notin> fst ` set acc" and vs: "vs \<noteq> []"
    by auto
  have d: "distinct (map fst ((acc @ [(k, vs)]) @ opts))"
    using Cons.prems p by simp
  have l: "list_all (\<lambda>(k, vs). vs \<noteq> []) opts"
    using Cons.prems by simp
  show ?case
    using Cons.IH [OF d l] by (simp add: p add_all_key [OF k vs])
qed

lemmas block_defs =
  wellformed_block_def is_wlan_def is_word_def good_key_def good_value_def no_breaks_def

lemma extract_block:
  assumes "is_wlan i" and "is_word n" and "is_word t"
    and "list_all2 (\<lambda>l p. prefix '' '' l \<and> unpack_option l = Inr p) ls ps"
  shows "extract_loop ((''iface '' @ i @ ''-'' @ n @ '' inet '' @ t) # ls) schemes
           = Inr (schemes @ [\<lparr>interface = i, name = n, type = t, options = add_all [] ps\<rparr>])"
proof -
  let ?h = "''iface '' @ i @ ''-'' @ n @ '' inet '' @ t"
  have m: "re_match scheme_re ?h = Some [1 \<mapsto> i, 2 \<mapsto> n, 3 \<mapsto> t]"
    using scheme_re_named [OF assms(1-3), of "[]" Map.empty]
    by (simp add: re_match_first stops_def)
  have ne: "n \<noteq> []" "i \<noteq> []"
    using assms(1,2) by (auto simp: is_word_def is_wlan_def)
  have r: "read_options ls [] = Inr (add_all [] ps, [])"
    using read_options_lines [OF assms(4), of "[]" "[]"] by simp
  show ?thesis
    using m ne r by simp
qed

lemma header_no_breaks:
  assumes "is_wlan i" and "is_word n" and "is_word t"
  shows "no_breaks (''iface '' @ i @ ''-'' @ n @ '' inet '' @ t)"
  using assms by (simp add: is_wlan_no_breaks is_word_no_breaks py_islinebreak_def)

section \<open>Parsing: repeated keys\<close>




section \<open>Rendering and parsing back\<close>

text \<open>
  Claim C1 states the round trip for every block with non-empty interface, name, type and
  options. The pattern accepts only the interfaces \<^verbatim>\<open>wlan\<close> and \<^verbatim>\<open>wlan<digit>\<close> and names of
  \<^verbatim>\<open>\w\<close> characters, the parser collapses whitespace runs in an option line, raises on an
  empty value, and a key with no values is not rendered at all: in each of the five blocks
  below the text parses to something else than the block.
\<close>

theorem round_trip_counterexample:
  "extract_schemes (str_Scheme \<lparr>interface = ''eth0'', name = ''home'', type = ''dhcp'',
       options = [(''address'', [''10.0.0.2''])]\<rparr>) = Inr []
   \<and> extract_schemes (str_Scheme \<lparr>interface = ''wlan0'', name = ''my-net'', type = ''dhcp'',
       options = [(''address'', [''10.0.0.2''])]\<rparr>) = Inr []
   \<and> extract_schemes (str_Scheme \<lparr>interface = ''wlan0'', name = ''home'', type = ''dhcp'',
       options = [(''post-up'', [''echo  hi''])]\<rparr>)
       = Inr [\<lparr>interface = ''wlan0'', name = ''home'', type = ''dhcp'',
               options = [(''post-up'', [''echo hi''])]\<rparr>]
   \<and> extract_schemes (str_Scheme \<lparr>interface = ''wlan0'', name = ''home'', type = ''dhcp'',
       options = [(''wpa-ssid'', [[]])]\<rparr>) = Inl ValueError
   \<and> extract_schemes (str_Scheme \<lparr>interface = ''wlan0'', name = ''home'', type = ''dhcp'',
       options = [(''post-up'', [])]\<rparr>)
       = Inr [\<lparr>interface = ''wlan0'', name = ''home'', type = ''dhcp'', options = []\<rparr>]"
  by (simp add: str_Scheme_def option_pairs_def parse_defs char_defs)

lemma str_Scheme_unlines:
  "str_Scheme b = unlines ((''iface '' @ interface b @ ''-'' @ name b @ '' inet '' @ type b)
      # map (\<lambda>(k, v). ''    '' @ k @ '' '' @ v) (option_pairs b))"
proof -
  have "h @ concat (map (\<lambda>(k, v). [LF] @ ''    '' @ k @ '' '' @ v) ps) @ [LF]
          = unlines (h # map (\<lambda>(k, v). ''    '' @ k @ '' '' @ v) ps)" for h ps
    by (induction ps arbitrary: h) (auto simp: unlines_def)
  from this [of "''iface '' @ interface b @ ''-'' @ name b @ '' inet '' @ type b" "option_pairs b"]
  show ?thesis by (simp add: str_Scheme_def)
qed

lemma good_value_no_breaks: "good_value v \<Longrightarrow> no_breaks v"
  by (simp add: good_value_def)

lemma good_key_no_breaks: "good_key k \<Longrightarrow> no_breaks k"
  by (auto simp: good_key_def no_breaks_def list_all_iff dest: linebreak_space)

text \<open>
  Claim C1, amended: for every block whose interface is \<^verbatim>\<open>wlan\<close> or \<^verbatim>\<open>wlan\<close> with one decimal
  digit, whose name and type are non-empty words of \<^verbatim>\<open>\w\<close> characters, and whose options map
  distinct keys (non-empty, without whitespace) to non-empty lists of values (each non-empty,
  without whitespace at its ends, without two whitespace characters in a row and without
  line breaks), parsing the rendered text gives exactly that block: same interface, name,
  type and options, keys and values in their order.
\<close>

theorem round_trip:
  assumes "wellformed_block b"
  shows "extract_schemes (str_Scheme b) = Inr [b]"
proof -
  let ?h = "''iface '' @ interface b @ ''-'' @ name b @ '' inet '' @ type b"
  let ?line = "\<lambda>(k, v). ''    '' @ k @ '' '' @ v"
  let ?ps = "option_pairs b"
  from assms have w: "is_wlan (interface b)" "is_word (name b)" "is_word (type b)"
    and d: "distinct (map fst (options b))"
    and o: "list_all (\<lambda>(k, vs). good_key k \<and> vs \<noteq> [] \<and> list_all good_value vs) (options b)"
    by (simp_all add: wellformed_block_def)
  have g: "good_key k \<and> good_value v" if "(k, v) \<in> set ?ps" for k v
    using that o by (auto simp: option_pairs_def list_all_iff)
  have a: "list_all2 (\<lambda>l p. prefix '' '' l \<and> unpack_option l = Inr p) (map ?line ?ps) ?ps"
    using g unpack_rendered_option by (auto simp: list_all2_map1 list_all2_same)
  have nb: "list_all no_breaks (?h # map ?line ?ps)"
    using header_no_breaks [OF w] g
    by (auto simp: list_all_iff good_key_no_breaks good_value_no_breaks py_islinebreak_def)
  have ne: "list_all (\<lambda>(k, vs). vs \<noteq> []) (options b)"
    using o by (auto simp: list_all_iff)
  have f: "add_all [] ?ps = options b"
    using add_all_pairs [of "[]" "options b"] d ne by (simp add: option_pairs_def)
  have "extract_schemes (str_Scheme b) = extract_loop (?h # map ?line ?ps) []"
    by (simp only: str_Scheme_unlines extract_schemes_def splitlines_unlines [OF nb])
  also have "\<dots> = Inr ([] @ [\<lparr>interface = interface b, name = name b, type = type b,
      options = add_all [] ?ps\<rparr>])"
    by (rule extract_block [OF w a])
  finally show ?thesis
    by (simp add: f)
qed

theorem round_trip_witness:
  "extract_schemes (str_Scheme \<lparr>interface = ''wlan0'', name = ''home'', type = ''dhcp'',
       options = [(''wpa-ssid'', [''my net'']), (''post-up'', [''a'', ''b c''])]\<rparr>)
     = Inr [\<lparr>interface = ''wlan0'', name = ''home'', type = ''dhcp'',
       options = [(''wpa-ssid'', [''my net'']), (''post-up'', [''a'', ''b c''])]\<rparr>]"
  using round_trip [of "\<lparr>interface = ''wlan0'', name = ''home'', type = ''dhcp'',
       options = [(''wpa-ssid'', [''my net'']), (''post-up'', [''a'', ''b c''])]\<rparr>"]
  by (simp add: block_defs char_defs)

section \<open>Deleting a block\<close>

text \<open>
  The lines that start a span to delete, and the blank lines that end it.
\<close>

definition starts_block :: "string \<Rightarrow> string \<Rightarrow> bool" where
  "starts_block iface' l = prefix iface' (strip l)"

definition blank :: "string \<Rightarrow> bool" where
  "blank l = (strip l = [])"

lemma delete_loop_outside:
  assumes "iface' \<noteq> []" and "list_all (\<lambda>l. \<not> starts_block iface' l) pre"
  shows "delete_loop iface' False content (pre @ rest)
           = delete_loop iface' False (content @ concat pre) rest"
  using assms(2)
proof (induction pre arbitrary: content)
  case Nil
  then show ?case by simp
next
  case (Cons l pre)
  then show ?case by (simp add: starts_block_def)
qed

lemma delete_loop_header:
  assumes "iface' \<noteq> []" and "starts_block iface' l"
  shows "delete_loop iface' skip content (l # rest) = delete_loop iface' True content rest"
proof -
  from assms have "strip l \<noteq> []" by (auto simp: starts_block_def)
  with assms(2) show ?thesis by (simp add: starts_block_def)
qed

lemma delete_loop_inside:
  assumes "list_all (\<lambda>l. \<not> blank l) body"
  shows "delete_loop iface' True content (body @ rest) = delete_loop iface' True content rest"
  using assms by (induction body) (simp_all add: blank_def)

lemma delete_loop_boundary:
  assumes "blank l"
  shows "delete_loop iface' skip content (l # rest) = delete_loop iface' False (content @ l) rest"
  using assms by (simp add: blank_def)

lemma delete_loop_span:
  assumes "iface' \<noteq> []"
    and "list_all (\<lambda>l. \<not> starts_block iface' l) pre"
    and "starts_block iface' hdr"
    and "list_all (\<lambda>l. \<not> blank l) body"
    and "rest = [] \<or> blank (hd rest)"
    and "list_all (\<lambda>l. \<not> starts_block iface' l) rest"
  shows "delete_loop iface' False [] (pre @ hdr # body @ rest) = concat (pre @ rest)"
proof -
  have a: "delete_loop iface' False [] (pre @ hdr # body @ rest)
             = delete_loop iface' True (concat pre) rest"
    using delete_loop_outside [OF assms(1,2), of "[]" "hdr # body @ rest"]
      delete_loop_header [OF assms(1,3), of False "concat pre" "body @ rest"]
      delete_loop_inside [OF assms(4), of iface' "concat pre" rest]
    by simp
  show ?thesis
  proof (cases rest)
    case Nil
    with a show ?thesis by simp
  next
    case (Cons l rest')
    with assms(5,6) have l: "blank l" and r: "list_all (\<lambda>l. \<not> starts_block iface' l) rest'"
      by simp_all
    show ?thesis
      using a delete_loop_boundary [OF l, of iface' True "concat pre" rest']
        delete_loop_outside [OF assms(1) r, of "concat pre @ l" "[]"]
      by (simp add: Cons)
  qed
qed

lemma concat_file_lines: "concat (file_lines s) = s"
  by (induction s) (auto split: list.splits)

lemma read_text_id: "CR \<notin> set s \<Longrightarrow> read_text s = s"
  by (induction s) auto

lemmas store_defs =
  delete_def save_def find_scheme_def all_schemes_def ensure_file_exists_def write_scheme_def
  flat_name_def blank_def starts_block_def str_Scheme_def option_pairs_def

text \<open>
  Claim C4 states that deleting a block leaves the text of every other block as it was.
  The span that \<^verbatim>\<open>delete\<close> removes ends at the next blank line, not at the next header: in the
  file below, which holds the blocks \<^verbatim>\<open>a\<close> and \<^verbatim>\<open>b\<close> with no blank line between them,
  deleting \<^verbatim>\<open>a\<close> leaves an empty file.
\<close>

theorem delete_neighbour_counterexample:
  "extract_schemes (''iface wlan0-a inet dhcp'' @ [LF] @ ''    x y'' @ [LF]
       @ ''iface wlan0-b inet dhcp'' @ [LF] @ ''    z w'' @ [LF])
     = Inr [\<lparr>interface = ''wlan0'', name = ''a'', type = ''dhcp'', options = [(''x'', [''y''])]\<rparr>,
            \<lparr>interface = ''wlan0'', name = ''b'', type = ''dhcp'', options = [(''z'', [''w''])]\<rparr>]
   \<and> delete \<lparr>interface = ''wlan0'', name = ''a'', type = ''dhcp'', options = [(''x'', [''y''])]\<rparr>
       \<lparr>interfaces = Some (''iface wlan0-a inet dhcp'' @ [LF] @ ''    x y'' @ [LF]
          @ ''iface wlan0-b inet dhcp'' @ [LF] @ ''    z w'' @ [LF]),
        interfaces_d = []\<rparr>
     = (Inr (), \<lparr>interfaces = Some [], interfaces_d = []\<rparr>)"
  by (simp add: store_defs parse_defs char_defs Let_def)

text \<open>
  Claim C4, amended: let the lines of the primary file be \<open>pre\<close>, a line \<open>hdr\<close> whose stripped
  text starts with the header \<^verbatim>\<open>iface <interface>-<name> inet <type>\<close> of the block, lines
  \<open>body\<close> none of which is blank, and \<open>rest\<close>, which is empty or starts with a blank line;
  let no line of \<open>pre\<close> or \<open>rest\<close> start with the header. Then deleting the block rewrites the
  primary file to \<open>pre\<close> followed by \<open>rest\<close>, each line as it was read (the span from the
  header up to, not including, the blank line or the end of the file is removed, and a
  block after the blank line keeps its text); the file \<^verbatim>\<open><interface>-<name>\<close> of the override
  directory is removed if present, and the other files of the directory are untouched.
\<close>

theorem delete_removes_span:
  assumes "interfaces fs = Some raw"
    and "file_lines (read_text raw) = pre @ hdr # body @ rest"
    and "iface' = ''iface '' @ interface self @ ''-'' @ name self @ '' inet '' @ type self"
    and "list_all (\<lambda>l. \<not> starts_block iface' l) pre"
    and "starts_block iface' hdr"
    and "list_all (\<lambda>l. \<not> blank l) body"
    and "rest = [] \<or> blank (hd rest)"
    and "list_all (\<lambda>l. \<not> starts_block iface' l) rest"
    and "flat_name (interface self @ ''-'' @ name self)"
  shows "delete self fs =
           (Inr (), \<lparr>interfaces = Some (concat (pre @ rest)),
                     interfaces_d = AList.delete (interface self @ ''-'' @ name self)
                                      (interfaces_d fs)\<rparr>)
       \<and> map_of (interfaces_d (snd (delete self fs))) (interface self @ ''-'' @ name self) = None
       \<and> (\<forall>f. f \<noteq> interface self @ ''-'' @ name self \<longrightarrow>
             map_of (interfaces_d (snd (delete self fs))) f = map_of (interfaces_d fs) f)
       \<and> read_text raw = concat (pre @ hdr # body @ rest)"
proof -
  have ne: "iface' \<noteq> []" by (simp add: assms(3))
  have c: "delete_loop iface' False [] (file_lines (read_text raw)) = concat (pre @ rest)"
    unfolding assms(2) by (rule delete_loop_span [OF ne assms(4-8)])
  have d: "delete self fs =
           (Inr (), \<lparr>interfaces = Some (concat (pre @ rest)),
                     interfaces_d = AList.delete (interface self @ ''-'' @ name self)
                                      (interfaces_d fs)\<rparr>)"
    using c assms(1,9) unfolding assms(3) by (simp add: delete_def Let_def)
  have t: "read_text raw = concat (pre @ hdr # body @ rest)"
    using concat_file_lines [of "read_text raw"] by (simp only: assms(2))
  show ?thesis
    unfolding d using t by (simp add: delete_conv')
qed

theorem delete_removes_span_witness:
  "delete \<lparr>interface = ''wlan0'', name = ''a'', type = ''dhcp'', options = [(''x'', [''y''])]\<rparr>
       \<lparr>interfaces = Some (''# home'' @ [LF] @ ''iface wlan0-a inet dhcp'' @ [LF]
          @ ''    x y'' @ [LF] @ [LF] @ ''iface wlan0-b inet dhcp'' @ [LF] @ ''    z w'' @ [LF]),
        interfaces_d = [(''wlan0-a'', ''iface wlan0-a inet dhcp'' @ [LF]),
                        (''wlan0-c'', ''iface wlan0-c inet dhcp'' @ [LF])]\<rparr>
     = (Inr (), \<lparr>interfaces = Some (''# home'' @ [LF] @ [LF]
          @ ''iface wlan0-b inet dhcp'' @ [LF] @ ''    z w'' @ [LF]),
        interfaces_d = [(''wlan0-c'', ''iface wlan0-c inet dhcp'' @ [LF])]\<rparr>)"
proof -
  let ?self = "\<lparr>interface = ''wlan0'', name = ''a'', type = ''dhcp'', options = [(''x'', [''y''])]\<rparr>"
  let ?raw = "''# home'' @ [LF] @ ''iface wlan0-a inet dhcp'' @ [LF]
          @ ''    x y'' @ [LF] @ [LF] @ ''iface wlan0-b inet dhcp'' @ [LF] @ ''    z w'' @ [LF]"
  let ?fs = "\<lparr>interfaces = Some ?raw,
        interfaces_d = [(''wlan0-a'', ''iface wlan0-a inet dhcp'' @ [LF]),
                        (''wlan0-c'', ''iface wlan0-c inet dhcp'' @ [LF])]\<rparr>"
  let ?pre = "[''# home'' @ [LF]]"
  let ?hdr = "''iface wlan0-a inet dhcp'' @ [LF]"
  let ?body = "[''    x y'' @ [LF]]"
  let ?rest = "[[LF], ''iface wlan0-b inet dhcp'' @ [LF], ''    z w'' @ [LF]]"
  let ?iface = "''iface wlan0-a inet dhcp''"
  have 1: "interfaces ?fs = Some ?raw" by simp
  have 2: "file_lines (read_text ?raw) = ?pre @ ?hdr # ?body @ ?rest"
    by (simp add: char_defs)
  have 3: "?iface = ''iface '' @ interface ?self @ ''-'' @ name ?self @ '' inet '' @ type ?self"
    by simp
  have 4: "list_all (\<lambda>l. \<not> starts_block ?iface l) ?pre"
    by (simp add: starts_block_def strip_def char_defs)
  have 5: "starts_block ?iface ?hdr"
    by (simp add: starts_block_def strip_def char_defs)
  have 6: "list_all (\<lambda>l. \<not> blank l) ?body"
    by (simp add: blank_def strip_def char_defs)
  have 7: "?rest = [] \<or> blank (hd ?rest)"
    by (simp add: blank_def strip_def char_defs)
  have 8: "list_all (\<lambda>l. \<not> starts_block ?iface l) ?rest"
    by (simp add: starts_block_def strip_def char_defs)
  have 9: "flat_name (interface ?self @ ''-'' @ name ?self)"
    by (simp add: flat_name_def)
  from delete_removes_span [OF 1 2 3 4 5 6 7 8 9]
  have "delete ?self ?fs =
           (Inr (), \<lparr>interfaces = Some (concat (?pre @ ?rest)),
                     interfaces_d = AList.delete (interface ?self @ ''-'' @ name ?self)
                                      (interfaces_d ?fs)\<rparr>)"
    by (rule conjunct1)
  then show ?thesis by simp
qed

section \<open>Saving a block that exists\<close>

text \<open>
  What the parser accepts as interface and name: the names of the schemes a lookup can
  return, none of which has a path separator.
\<close>

lemma set_ms_Cat: "set (ms (Cat a b) sg) = (\<Union>x \<in> set (ms a sg). set (ms b x))"
  by simp

lemma ms_Lit_groups: "x \<in> set (ms (Lit w) sg) \<Longrightarrow> snd x = snd sg"
  by (cases sg) (auto split: if_splits)

lemma ms_Plus_run:
  "(s', g') \<in> set (ms (Plus c) (s, g)) \<Longrightarrow>
     g' = g \<and> (\<exists>w. w \<noteq> [] \<and> list_all (in_class c) w \<and> s = w @ s')"
proof (induction s)
  case Nil
  then show ?case by simp
next
  case (Cons x xs)
  from Cons.prems have x: "in_class c x"
    and d: "(s', g') \<in> set (ms (Plus c) (xs, g)) \<or> (s', g') = (xs, g)"
    by (auto split: if_splits)
  from d show ?case
  proof
    assume "(s', g') \<in> set (ms (Plus c) (xs, g))"
    from Cons.IH [OF this] obtain w where "g' = g" "w \<noteq> []" "list_all (in_class c) w" "xs = w @ s'"
      by auto
    with x show ?thesis by (intro conjI exI [of _ "x # w"]) simp_all
  next
    assume "(s', g') = (xs, g)"
    with x show ?thesis by (intro conjI exI [of _ "[x]"]) simp_all
  qed
qed

lemma ms_Plus_groups: "x \<in> set (ms (Plus c) sg) \<Longrightarrow> snd x = snd sg"
  using ms_Plus_run [of "fst x" "snd x" c "fst sg" "snd sg"] by simp

lemma ms_interface_group:
  assumes "x \<in> set (ms (Group 1 (Cat (Lit ''wlan'') (Opt (Cls CDigit)))) sg)"
  shows "\<exists>i. snd x = (snd sg)(1 \<mapsto> i) \<and> is_wlan i"
proof -
  obtain s g where sg: "sg = (s, g)" by (cases sg)
  from assms obtain r where s: "s = ''wlan'' @ r"
    unfolding sg by (auto simp: prefix_def split: if_splits)
  from assms consider "x = (r, g(1 \<mapsto> ''wlan''))"
    | d r' where "r = d # r'" "py_isdecimal d" "x = (r', g(1 \<mapsto> ''wlan'' @ [d]))"
    unfolding sg s by (cases r) (auto split: if_splits)
  then show ?thesis
  proof cases
    case 1
    show ?thesis
      by (rule exI [of _ "''wlan''"]) (simp add: 1 sg is_wlan_def)
  next
    case 2
    show ?thesis
      by (rule exI [of _ "''wlan'' @ [d]"]) (simp add: 2 sg is_wlan_def)
  qed
qed

lemma ms_word_group:
  assumes "x \<in> set (ms (Group n (Plus CWord)) sg)"
  shows "\<exists>w. snd x = (snd sg)(n \<mapsto> w) \<and> is_word w"
proof -
  obtain s g where sg: "sg = (s, g)" by (cases sg)
  from assms obtain s' g' where y: "(s', g') \<in> set (ms (Plus CWord) (s, g))"
    and x: "x = (s', g'(n \<mapsto> take (length s - length s') s))"
    unfolding sg by auto
  from ms_Plus_run [OF y] obtain w where "g' = g" "w \<noteq> []" "list_all py_isword w" "s = w @ s'"
    by (auto simp: list_all_iff)
  with x show ?thesis by (auto simp: is_word_def sg)
qed

lemma ms_name_group:
  assumes "x \<in> set (ms (Opt (Cat (Lit ''-'') (Group 2 (Plus CWord)))) sg)"
  shows "snd x = snd sg \<or> (\<exists>n. snd x = (snd sg)(2 \<mapsto> n) \<and> is_word n)"
proof -
  from assms have "x = sg \<or> (\<exists>y \<in> set (ms (Lit ''-'') sg). x \<in> set (ms (Group 2 (Plus CWord)) y))"
    by auto
  then show ?thesis
  proof
    assume "x = sg"
    then show ?thesis by simp
  next
    assume "\<exists>y \<in> set (ms (Lit ''-'') sg). x \<in> set (ms (Group 2 (Plus CWord)) y)"
    then obtain y where y: "y \<in> set (ms (Lit ''-'') sg)" and x: "x \<in> set (ms (Group 2 (Plus CWord)) y)"
      by blast
    from ms_word_group [OF x] ms_Lit_groups [OF y] show ?thesis by simp
  qed
qed

lemma ms_scheme_re_groups:
  assumes "x \<in> set (ms scheme_re sg)"
  shows "\<exists>i t. snd x 1 = Some i \<and> is_wlan i \<and> snd x 3 = Some t \<and> is_word t
           \<and> (snd x 2 = snd sg 2 \<or> (\<exists>n. snd x 2 = Some n \<and> is_word n))"
proof -
  from assms [unfolded scheme_re_def set_ms_Cat]
  obtain x1 x2 x3 x4 x5 x6 x7 where
    1: "x1 \<in> set (ms (Lit ''iface'') sg)" and
    2: "x2 \<in> set (ms (Plus CSpace) x1)" and
    3: "x3 \<in> set (ms (Group 1 (Cat (Lit ''wlan'') (Opt (Cls CDigit)))) x2)" and
    4: "x4 \<in> set (ms (Opt (Cat (Lit ''-'') (Group 2 (Plus CWord)))) x3)" and
    5: "x5 \<in> set (ms (Plus CSpace) x4)" and
    6: "x6 \<in> set (ms (Lit ''inet'') x5)" and
    7: "x7 \<in> set (ms (Plus CSpace) x6)" and
    8: "x \<in> set (ms (Group 3 (Plus CWord)) x7)"
    by blast
  have g2: "snd x2 = snd sg"
    using ms_Lit_groups [OF 1] ms_Plus_groups [OF 2] by simp
  from ms_interface_group [OF 3] obtain i where g3: "snd x3 = (snd sg)(1 \<mapsto> i)" and i: "is_wlan i"
    using g2 by auto
  note g4 = ms_name_group [OF 4]
  have g7: "snd x7 = snd x4"
    using ms_Plus_groups [OF 5] ms_Lit_groups [OF 6] ms_Plus_groups [OF 7] by simp
  from ms_word_group [OF 8] obtain t where g8: "snd x = (snd x4)(3 \<mapsto> t)" and t: "is_word t"
    using g7 by auto
  from g4 show ?thesis
  proof
    assume "snd x4 = snd x3"
    with g3 g8 i t show ?thesis by auto
  next
    assume "\<exists>n. snd x4 = (snd x3)(2 \<mapsto> n) \<and> is_word n"
    with g3 g8 i t show ?thesis by auto
  qed
qed

lemma scheme_re_groups:
  assumes "re_match scheme_re line = Some g"
  shows "\<exists>i t. g 1 = Some i \<and> is_wlan i \<and> g 3 = Some t \<and> is_word t
           \<and> (g 2 = None \<or> (\<exists>n. g 2 = Some n \<and> is_word n))"
proof -
  from assms obtain rest where "(rest, g) \<in> set (ms scheme_re (line, Map.empty))"
    by (auto simp: re_match_def split: list.splits)
  from ms_scheme_re_groups [OF this] show ?thesis by simp
qed

definition parsed_name :: "Scheme \<Rightarrow> bool" where
  "parsed_name s = (is_wlan (interface s) \<and> is_word (name s))"

lemma extract_loop_names:
  "extract_loop lines schemes = Inr out \<Longrightarrow> list_all parsed_name schemes
     \<Longrightarrow> list_all parsed_name out"
proof (induction lines arbitrary: schemes out rule: length_induct)
  case (1 lines)
  note IH = "1.IH" [rule_format]
  show ?case
  proof (cases lines)
    case Nil
    with "1.prems" show ?thesis by simp
  next
    case (Cons line rest)
    have skip: "list_all parsed_name out" if "extract_loop rest schemes = Inr out"
      using IH [of rest schemes out] that "1.prems"(2) Cons by simp
    show ?thesis
    proof (cases "prefix ''#'' line \<or> line = []")
      case True
      with "1.prems"(1) Cons skip show ?thesis by simp
    next
      case False
      note nc = this
      show ?thesis
      proof (cases "re_match scheme_re line")
        case None
        with "1.prems"(1) Cons nc skip show ?thesis by simp
      next
        case (Some g)
        from scheme_re_groups [OF Some] obtain i t where
          g: "g 1 = Some i" "is_wlan i" "g 3 = Some t"
          "g 2 = None \<or> (\<exists>n. g 2 = Some n \<and> is_word n)"
          by blast
        from g(4) show ?thesis
        proof
          assume "g 2 = None"
          with "1.prems"(1) Cons nc Some g skip show ?thesis by simp
        next
          assume "\<exists>n. g 2 = Some n \<and> is_word n"
          then obtain n where n: "g 2 = Some n" "is_word n" by blast
          then have ne: "n \<noteq> []" "i \<noteq> []"
            using g(2) by (auto simp: is_word_def is_wlan_def)
          from "1.prems"(1) Cons nc Some g n ne obtain opts lines' where
            r: "read_options rest [] = Inr (opts, lines')" and
            e: "extract_loop lines'
                  (schemes @ [\<lparr>interface = i, name = n, type = t, options = opts\<rparr>]) = Inr out"
            by (auto split: sum.splits)
          have p: "list_all parsed_name
                     (schemes @ [\<lparr>interface = i, name = n, type = t, options = opts\<rparr>])"
            using "1.prems"(2) g(2) n(2) by (simp add: parsed_name_def [abs_def])
          have "length lines' < length lines"
            using read_options_length [OF r] Cons by simp
          from IH [OF this e p] show ?thesis .
        qed
      qed
    qed
  qed
qed

lemma extract_schemes_names: "extract_schemes text = Inr out \<Longrightarrow> list_all parsed_name out"
  using extract_loop_names [of "splitlines text" "[]" out] by (simp add: extract_schemes_def)

text \<open>
  The content of the store, in the words of the spec: a text parses when \<^verbatim>\<open>extract_schemes\<close>
  returns normally on it, and then holds the blocks returned; the primary text is the text
  of the primary file, empty when the file is missing; and the blocks of the store are
  those of the primary file followed by those of the override files in the order of the
  listing (the spec's List). A span is either nothing (the block is not in the primary
  file) or a header line followed by lines that are not blank.
\<close>

definition parses :: "string \<Rightarrow> bool" where
  "parses raw = (case extract_schemes (read_text raw) of Inl e \<Rightarrow> False | Inr blocks \<Rightarrow> True)"

definition file_blocks :: "string \<Rightarrow> Scheme list" where
  "file_blocks raw = (case extract_schemes (read_text raw) of Inl e \<Rightarrow> [] | Inr blocks \<Rightarrow> blocks)"

definition primary_text :: "Files \<Rightarrow> string" where
  "primary_text fs = (case interfaces fs of None \<Rightarrow> [] | Some raw \<Rightarrow> raw)"

definition store_blocks :: "string list \<Rightarrow> Files \<Rightarrow> Scheme list" where
  "store_blocks listing fs =
     file_blocks (primary_text fs)
     @ concat (map (\<lambda>f. case map_of (interfaces_d fs) f of
                             None \<Rightarrow> [] | Some raw \<Rightarrow> file_blocks raw) listing)"

definition block_span :: "string \<Rightarrow> string list \<Rightarrow> bool" where
  "block_span iface' span =
     (case span of [] \<Rightarrow> True
      | hdr # body \<Rightarrow> starts_block iface' hdr \<and> list_all (\<lambda>l. \<not> blank l) body)"

lemma extract_files_blocks:
  assumes "list_all (\<lambda>(f, raw). parses raw) dir"
  shows "extract_files dir listing schemes =
           Inr (schemes @ concat (map (\<lambda>f. case map_of dir f of
                                              None \<Rightarrow> [] | Some raw \<Rightarrow> file_blocks raw) listing))"
proof (induction listing arbitrary: schemes)
  case Nil
  show ?case by simp
next
  case (Cons f listing)
  show ?case
  proof (cases "map_of dir f")
    case None
    with Cons show ?thesis by simp
  next
    case (Some raw)
    then have "(f, raw) \<in> set dir" by (rule map_of_SomeD)
    with assms have "parses raw" by (auto simp: list_all_iff)
    then obtain extra where e: "extract_schemes (read_text raw) = Inr extra"
      by (auto simp: parses_def split: sum.splits)
    then have "file_blocks raw = extra" by (simp add: file_blocks_def)
    with Some e Cons show ?thesis by simp
  qed
qed

lemma all_schemes_blocks:
  assumes "parses (primary_text fs)" and "list_all (\<lambda>(f, raw). parses raw) (interfaces_d fs)"
  shows "all_schemes listing fs
           = (Inr (store_blocks listing fs), fs\<lparr>interfaces := Some (primary_text fs)\<rparr>)"
proof -
  have e: "ensure_file_exists fs = fs\<lparr>interfaces := Some (primary_text fs)\<rparr>"
    by (simp add: ensure_file_exists_def primary_text_def split: option.splits)
  from assms(1) obtain blocks where
    p: "extract_schemes (read_text (primary_text fs)) = Inr blocks"
    by (auto simp: parses_def split: sum.splits)
  then have b: "file_blocks (primary_text fs) = blocks" by (simp add: file_blocks_def)
  show ?thesis
    using extract_files_blocks [OF assms(2), of listing blocks]
    by (simp add: all_schemes_def e p b store_blocks_def)
qed

lemma file_blocks_names: "list_all parsed_name (file_blocks raw)"
  using extract_schemes_names [of "read_text raw"]
  by (auto simp: file_blocks_def split: sum.splits)

lemma store_blocks_names: "list_all parsed_name (store_blocks listing fs)"
  using file_blocks_names
  by (auto simp: store_blocks_def list_all_iff split: option.splits)

lemma store_blocks_holds:
  assumes "distinct (map fst (interfaces_d fs))" and "set listing = fst ` set (interfaces_d fs)"
    and "s \<in> set (file_blocks (primary_text fs))
         \<or> (\<exists>(f, raw) \<in> set (interfaces_d fs). s \<in> set (file_blocks raw))"
  shows "s \<in> set (store_blocks listing fs)"
  using assms(3)
proof
  assume "s \<in> set (file_blocks (primary_text fs))"
  then show ?thesis by (simp add: store_blocks_def)
next
  assume "\<exists>(f, raw) \<in> set (interfaces_d fs). s \<in> set (file_blocks raw)"
  then obtain f raw where m: "(f, raw) \<in> set (interfaces_d fs)" and s: "s \<in> set (file_blocks raw)"
    by auto
  from m assms(1) have "map_of (interfaces_d fs) f = Some raw" by simp
  moreover from m assms(2) have "f \<in> set listing" by force
  ultimately show ?thesis using s by (force simp: store_blocks_def)
qed

lemma word_flat: "py_isword c \<Longrightarrow> c \<noteq> CHR ''/'' \<and> c \<noteq> CHR 0x00"
  by (auto simp: py_isword_def)

lemma parsed_name_flat: "parsed_name s \<Longrightarrow> flat_name (interface s @ ''-'' @ name s)"
  using is_wlan_word [of "interface s"]
  by (auto simp: parsed_name_def flat_name_def is_word_def list_all_iff dest: word_flat)

lemma delete_loop_block_span:
  assumes "iface' \<noteq> []"
    and "list_all (\<lambda>l. \<not> starts_block iface' l) pre"
    and "block_span iface' span"
    and "span = [] \<or> rest = [] \<or> blank (hd rest)"
    and "list_all (\<lambda>l. \<not> starts_block iface' l) rest"
  shows "delete_loop iface' False [] (pre @ span @ rest) = concat (pre @ rest)"
proof (cases span)
  case Nil
  have "list_all (\<lambda>l. \<not> starts_block iface' l) (pre @ rest)"
    using assms(2,5) by simp
  from delete_loop_outside [OF assms(1) this, of "[]" "[]"] Nil show ?thesis by simp
next
  case (Cons hdr body)
  with assms(3,4) have "starts_block iface' hdr" "list_all (\<lambda>l. \<not> blank l) body"
    "rest = [] \<or> blank (hd rest)"
    by (simp_all add: block_span_def)
  from delete_loop_span [OF assms(1,2) this assms(5)] Cons show ?thesis by simp
qed




end
